theory Spec2Isabelle
  imports Main "HOL-Library.Word"
begin

section \<open>The buffer cache of kernel/bio.c\<close>

text \<open>
  A shallow embedding of \<^verbatim>\<open>kernel/bio.c\<close>: a fixed pool of buffers
  (\<^verbatim>\<open>bcache.buf[NBUF]\<close>), distributed over \<^verbatim>\<open>NBUCKET = 13\<close> hash
  buckets, each bucket an intrusive singly linked chain that starts at the bucket's own
  \<^verbatim>\<open>head\<close> buffer. The C code manipulates the chains through
  \<^verbatim>\<open>struct buf *\<close> pointers, so the model keeps an explicit store: a pointer
  is the address of a bucket head or of a pool slot, and every read and write of the C
  code is a read or write of that store.

  Each function is modelled as one sequential run. Spin locks guard nothing in a
  sequential run, so \<^verbatim>\<open>acquire\<close> and \<^verbatim>\<open>release\<close> are recorded, in
  program order, in a trace; the sleep lock of a buffer has real state (its holder),
  because \<^verbatim>\<open>brelse\<close> tests it and \<^verbatim>\<open>acquiresleep\<close> may suspend.
\<close>

subsection \<open>Data\<close>

type_synonym uint = "32 word"

text \<open>\<^verbatim>\<open>#define NBUCKET 13\<close>\<close>

definition NBUCKET :: nat where
  "NBUCKET = 13"

text \<open>
  A non-null \<^verbatim>\<open>struct buf *\<close>: the address of \<^verbatim>\<open>bcache.hashtable[k].head\<close>
  or of \<^verbatim>\<open>bcache.buf[i]\<close>. The null pointer is \<open>None\<close> of \<open>ptr option\<close>.
\<close>

datatype ptr = Head nat | Slot nat

text \<open>
  \<^verbatim>\<open>struct buf\<close>. Its declaration (\<^verbatim>\<open>buf.h\<close>) is not part of the
  sources at hand; the fields are the ones \<^verbatim>\<open>bio.c\<close> reads and writes.
  \<^verbatim>\<open>dev\<close> and \<^verbatim>\<open>blockno\<close> have the type of the parameters of
  \<^verbatim>\<open>bget\<close> (\<^verbatim>\<open>uint\<close>); \<^verbatim>\<open>refcnt\<close> and \<^verbatim>\<open>timestamp\<close>
  are taken to be \<^verbatim>\<open>uint\<close> as well (\<^verbatim>\<open>++\<close> and \<^verbatim>\<open>--\<close> wrap
  around), \<^verbatim>\<open>valid\<close> is an \<^verbatim>\<open>int\<close> flag, \<^verbatim>\<open>data\<close> is the payload.
  The field \<open>lock\<close> is the buffer's sleep lock, reduced to its holder (see
  \<open>acquiresleep\<close> below); \<open>nxt\<close> is the C field \<^verbatim>\<open>next\<close>.
\<close>

record buf =
  valid :: int
  dev :: uint
  blockno :: uint
  lock :: "nat option"
  refcnt :: uint
  nxt :: "ptr option"
  timestamp :: uint
  data :: "8 word list"

text \<open>\<^verbatim>\<open>struct bucket { struct spinlock lock; struct buf head; }\<close>\<close>

record bucket =
  head :: buf

text \<open>The locks whose acquisition and release are traced, and the traced events.\<close>

datatype spinlock = Bcache_lock | Bucket_lock nat

datatype event =
    Acquire spinlock
  | Release spinlock
  | Acquiresleep ptr nat
  | Releasesleep ptr
  | Disk_rw ptr bool

text \<open>
  The state: the global \<^verbatim>\<open>bcache\<close> (fields \<open>bufs\<close> for \<^verbatim>\<open>bcache.buf\<close>
  and \<open>hashtable\<close>), the contents of the disk, and the trace of lock and device
  events. \<^verbatim>\<open>NBUF\<close> (\<^verbatim>\<open>param.h\<close>) is the length of \<open>bufs\<close>.
\<close>

record state =
  bufs :: "buf list"
  hashtable :: "bucket list"
  disk :: "uint \<times> uint \<Rightarrow> 8 word list"
  trace :: "event list"

text \<open>
  What a call of the interface can do: stop the kernel in \<^verbatim>\<open>panic\<close>, suspend
  in \<^verbatim>\<open>acquiresleep\<close> on a buffer whose sleep lock is taken (the state is the
  one the suspended caller leaves behind), or return.
\<close>

datatype 'a outcome = Panic string | Blocked ptr state | Returned 'a state

subsection \<open>The store\<close>

definition valid_ptr :: "state \<Rightarrow> ptr \<Rightarrow> bool" where
  "valid_ptr s p = (case p of Head k \<Rightarrow> k < length (hashtable s) | Slot i \<Rightarrow> i < length (bufs s))"

text \<open>\<^verbatim>\<open>*p\<close> for a pointer into \<^verbatim>\<open>bcache\<close>.\<close>

definition deref :: "state \<Rightarrow> ptr \<Rightarrow> buf" where
  "deref s p = (case p of Head k \<Rightarrow> head (hashtable s ! k) | Slot i \<Rightarrow> bufs s ! i)"

text \<open>\<^verbatim>\<open>*p = b\<close>.\<close>

definition store :: "ptr \<Rightarrow> buf \<Rightarrow> state \<Rightarrow> state" where
  "store p b s = (case p of
       Head k \<Rightarrow> s\<lparr>hashtable := (hashtable s)[k := (hashtable s ! k)\<lparr>head := b\<rparr>]\<rparr>
     | Slot i \<Rightarrow> s\<lparr>bufs := (bufs s)[i := b]\<rparr>)"

text \<open>A write to one field: \<^verbatim>\<open>p->f = ...\<close>.\<close>

definition modify :: "ptr \<Rightarrow> (buf \<Rightarrow> buf) \<Rightarrow> state \<Rightarrow> state" where
  "modify p f s = store p (f (deref s p)) s"

definition log_event :: "event \<Rightarrow> state \<Rightarrow> state" where
  "log_event e s = s\<lparr>trace := trace s @ [e]\<rparr>"

text \<open>
  \<^verbatim>\<open>acquire(&lk)\<close> and \<^verbatim>\<open>release(&lk)\<close> of a spin lock
  (\<^verbatim>\<open>spinlock.c\<close>): an event of the trace.
\<close>

definition acquire :: "spinlock \<Rightarrow> state \<Rightarrow> state" where
  "acquire l s = log_event (Acquire l) s"

definition release :: "spinlock \<Rightarrow> state \<Rightarrow> state" where
  "release l s = log_event (Release l) s"

text \<open>
  Modelled from the spec: \<^verbatim>\<open>sleeplock.c\<close> is not part of the sources at hand.
  The spec describes the per-slot blocking lock as a lock with at most one holder at a
  time, which records its current holder for assertion purposes, and whose acquisition
  suspends the caller while the lock is taken. The lock is its holder, a process id;
  \<open>None\<close> is a free lock.
\<close>

definition holdingsleep :: "nat \<Rightarrow> ptr \<Rightarrow> state \<Rightarrow> bool" where
  "holdingsleep pid b s = (lock (deref s b) = Some pid)"

text \<open>Modelled from the spec: \<^verbatim>\<open>acquiresleep\<close> of \<^verbatim>\<open>sleeplock.c\<close>,
  as the last statement before \<^verbatim>\<open>return b\<close>.\<close>

definition acquiresleep :: "nat \<Rightarrow> ptr \<Rightarrow> state \<Rightarrow> ptr outcome" where
  "acquiresleep pid b s =
     (if lock (deref s b) = None
      then Returned b (log_event (Acquiresleep b pid) (modify b (\<lambda>x. x\<lparr>lock := Some pid\<rparr>) s))
      else Blocked b s)"

text \<open>Modelled from the spec: \<^verbatim>\<open>releasesleep\<close> of \<^verbatim>\<open>sleeplock.c\<close>.\<close>

definition releasesleep :: "ptr \<Rightarrow> state \<Rightarrow> state" where
  "releasesleep b s = log_event (Releasesleep b) (modify b (\<lambda>x. x\<lparr>lock := None\<rparr>) s)"

text \<open>
  Modelled from the spec: \<^verbatim>\<open>virtio_disk_rw(b, write)\<close> of the device driver,
  which is not part of the sources at hand. The spec's \<open>transfer(slot, direction)\<close>:
  a read populates the payload from the block \<open>(device, block_number)\<close>, a write
  persists the payload.
\<close>

definition virtio_disk_rw :: "ptr \<Rightarrow> bool \<Rightarrow> state \<Rightarrow> state" where
  "virtio_disk_rw b write s =
     (let x = deref s b in
      log_event (Disk_rw b write)
        (if write then s\<lparr>disk := (disk s)((dev x, blockno x) := data x)\<rparr>
         else modify b (\<lambda>y. y\<lparr>data := disk s (dev x, blockno x)\<rparr>) s))"

subsection \<open>hash and binit\<close>

text \<open>
  \<^verbatim>\<open>int hash(uint dev, uint blockno) { return (dev + blockno) % NBUCKET; }\<close>
  The sum is a 32-bit unsigned sum.
\<close>

definition hash :: "uint \<Rightarrow> uint \<Rightarrow> nat" where
  "hash d bn = unat (d + bn) mod NBUCKET"

text \<open>
  The global \<^verbatim>\<open>bcache\<close> has static storage: before \<^verbatim>\<open>binit\<close> every
  byte of it is zero. \<open>bcache0 n bsize dsk\<close> is that state for \<^verbatim>\<open>NBUF = n\<close>
  and \<^verbatim>\<open>BSIZE = bsize\<close>.
\<close>

definition zero_buf :: "nat \<Rightarrow> buf" where
  "zero_buf bsize = \<lparr>valid = 0, dev = 0, blockno = 0, lock = None, refcnt = 0, nxt = None,
     timestamp = 0, data = replicate bsize 0\<rparr>"

definition bcache0 :: "nat \<Rightarrow> nat \<Rightarrow> (uint \<times> uint \<Rightarrow> 8 word list) \<Rightarrow> state" where
  "bcache0 n bsize dsk = \<lparr>bufs = replicate n (zero_buf bsize),
     hashtable = replicate NBUCKET \<lparr>head = zero_buf bsize\<rparr>, disk = dsk, trace = []\<rparr>"

text \<open>
  The second loop of \<^verbatim>\<open>binit\<close>, from index \<open>i\<close> on (\<open>b\<close> is
  \<^verbatim>\<open>bcache.buf + i\<close> throughout):
  \<^verbatim>\<open>
  for (int i = 0; i < NBUF; i++) {
    initsleeplock(&bcache.buf[i].lock, "buffer");
    bucket = bcache.hashtable + (i % NBUCKET);
    b->next = bucket->head.next;
    bucket->head.next = b;
    b++;
  }
  \<close>
\<close>

lemma length_bufs_store [simp]: "length (bufs (store p b s)) = length (bufs s)"
  by (simp add: store_def split: ptr.splits)

lemma length_bufs_modify [simp]: "length (bufs (modify p f s)) = length (bufs s)"
  by (simp add: modify_def)

function binit_loop :: "nat \<Rightarrow> state \<Rightarrow> state" where
  "binit_loop i s =
     (if i < length (bufs s) then
        (let s1 = modify (Slot i) (\<lambda>x. x\<lparr>lock := None\<rparr>) s;
             bucket = i mod NBUCKET;
             s2 = modify (Slot i) (\<lambda>x. x\<lparr>nxt := nxt (deref s1 (Head bucket))\<rparr>) s1;
             s3 = modify (Head bucket) (\<lambda>x. x\<lparr>nxt := Some (Slot i)\<rparr>) s2
         in binit_loop (Suc i) s3)
      else s)"
  by pat_completeness auto

termination binit_loop
  by (relation "measure (\<lambda>(i, s). length (bufs s) - i)") auto

declare binit_loop.simps [simp del]

text \<open>
  \<^verbatim>\<open>binit\<close>. \<^verbatim>\<open>initlock\<close> only names a spin lock, so the first loop
  leaves no mark on the state.
\<close>

definition binit :: "state \<Rightarrow> state" where
  "binit s = binit_loop 0 s"

subsection \<open>bget\<close>

text \<open>
  A loop over a chain need not end: the chain may be cyclic. The loops of
  \<^verbatim>\<open>bget\<close> are therefore option-valued, and \<open>None\<close> says that the call
  never returns, because it runs forever or because it dereferences a null pointer
  (a kernel trap).
\<close>

lemma case_option_mono [partial_function_mono]:
  "mono_option F \<Longrightarrow> (\<And>x. mono_option (G x)) \<Longrightarrow>
   mono_option (\<lambda>f. case c of None \<Rightarrow> F f | Some x \<Rightarrow> G x f)"
  by (cases c) simp_all

text \<open>
  The lookup loop, with \<open>b\<close> the loop variable:
  \<^verbatim>\<open>
  for (b = bucket->head.next; b; b = b->next) {
    if(b->dev == dev && b->blockno == blockno){ ... return b; }
  }
  \<close>
  The result is the buffer found, or a null pointer when the loop ends without a match.
\<close>

partial_function (option) find_buf ::
  "state \<Rightarrow> uint \<Rightarrow> uint \<Rightarrow> ptr option \<Rightarrow> ptr option option" where
  "find_buf s d bn b =
     (case b of
        None \<Rightarrow> Some None
      | Some p \<Rightarrow>
          if dev (deref s p) = d \<and> blockno (deref s p) = bn then Some (Some p)
          else find_buf s d bn (nxt (deref s p)))"

declare find_buf.simps [code]

text \<open>
  The inner loop of the eviction scan; \<open>prb\<close> is \<^verbatim>\<open>prev_replace_buf\<close>, the
  buffer before the one to be replaced:
  \<^verbatim>\<open>
  for (b = &cur_bucket->head; b->next; b = b->next) {
    if (b->next->refcnt == 0 &&
        (!prev_replace_buf || b->next->timestamp < prev_replace_buf->next->timestamp)) {
      found = 1;
      prev_replace_buf = b;
    }
  }
  \<close>
\<close>

partial_function (option) scan_bucket ::
  "state \<Rightarrow> ptr \<Rightarrow> bool \<Rightarrow> ptr option \<Rightarrow> (bool \<times> ptr option) option" where
  "scan_bucket s b found prb =
     (case nxt (deref s b) of
        None \<Rightarrow> Some (found, prb)
      | Some c \<Rightarrow>
          if refcnt (deref s c) = 0 then
            (case prb of
               None \<Rightarrow> scan_bucket s c True (Some b)
             | Some pr \<Rightarrow>
                 (case nxt (deref s pr) of
                    None \<Rightarrow> None
                  | Some q \<Rightarrow>
                      if timestamp (deref s c) < timestamp (deref s q)
                      then scan_bucket s c True (Some b)
                      else scan_bucket s c found prb))
          else scan_bucket s c found prb)"

declare scan_bucket.simps [code]

text \<open>
  The outer loop of the eviction scan, from bucket \<open>cur\<close> on; \<open>pb\<close> is
  \<^verbatim>\<open>prev_bucket\<close>, the bucket whose lock is still held:
  \<^verbatim>\<open>
  for (cur_bucket = bcache.hashtable; cur_bucket < bcache.hashtable + NBUCKET; cur_bucket++) {
    acquire(&cur_bucket->lock);
    int found = 0;
    for (...) { ... }
    if (!found) {
      release(&cur_bucket->lock);
    } else {
      if (prev_bucket) {
        release(&prev_bucket->lock);
      }
      prev_bucket = cur_bucket;
    }
  }
  \<close>
\<close>

function scan_loop ::
  "nat \<Rightarrow> ptr option \<Rightarrow> nat option \<Rightarrow> state \<Rightarrow> (ptr option \<times> nat option \<times> state) option" where
  "scan_loop cur prb pb s =
     (if cur < NBUCKET then
        (let s1 = acquire (Bucket_lock cur) s in
         case scan_bucket s1 (Head cur) False prb of
           None \<Rightarrow> None
         | Some (found, prb') \<Rightarrow>
             if \<not> found then scan_loop (Suc cur) prb' pb (release (Bucket_lock cur) s1)
             else scan_loop (Suc cur) prb' (Some cur)
                    (case pb of None \<Rightarrow> s1 | Some k \<Rightarrow> release (Bucket_lock k) s1))
      else Some (prb, pb, s))"
  by pat_completeness auto

termination scan_loop
  by (relation "measure (\<lambda>(cur, prb, pb, s). NBUCKET - cur)") auto

declare scan_loop.simps [simp del]

text \<open>
  The end of \<^verbatim>\<open>bget\<close> on a miss, after the scan: \<open>pr\<close> is the non-null
  \<^verbatim>\<open>prev_replace_buf\<close>, \<open>pb\<close> is \<^verbatim>\<open>prev_bucket\<close>, \<open>index\<close> the
  requested bucket.
  \<^verbatim>\<open>
  b = prev_replace_buf->next;
  if (prev_bucket != bucket) {
    prev_replace_buf->next = b->next;
    release(&prev_bucket->lock);
    acquire(&bucket->lock);
    b->next = bucket->head.next;
    bucket->head.next = b;
  }
  b->dev = dev;
  b->blockno = blockno;
  b->refcnt = 1;
  b->valid = 0;
  release(&bucket->lock);
  release(&bcache.lock);
  acquiresleep(&b->lock);
  return b;
  \<close>
\<close>

definition relocate :: "ptr \<Rightarrow> ptr \<Rightarrow> nat \<Rightarrow> nat \<Rightarrow> state \<Rightarrow> state" where
  "relocate pr b k index s =
     (let s1 = modify pr (\<lambda>x. x\<lparr>nxt := nxt (deref s b)\<rparr>) s;
          s2 = release (Bucket_lock k) s1;
          s3 = acquire (Bucket_lock index) s2;
          s4 = modify b (\<lambda>x. x\<lparr>nxt := nxt (deref s3 (Head index))\<rparr>) s3
      in modify (Head index) (\<lambda>x. x\<lparr>nxt := Some b\<rparr>) s4)"

definition rebind :: "nat \<Rightarrow> uint \<Rightarrow> uint \<Rightarrow> nat \<Rightarrow> ptr \<Rightarrow> state \<Rightarrow> ptr outcome" where
  "rebind pid d bn index b s =
     (let s1 = modify b (\<lambda>x. x\<lparr>dev := d\<rparr>) s;
          s2 = modify b (\<lambda>x. x\<lparr>blockno := bn\<rparr>) s1;
          s3 = modify b (\<lambda>x. x\<lparr>refcnt := 1\<rparr>) s2;
          s4 = modify b (\<lambda>x. x\<lparr>valid := 0\<rparr>) s3;
          s5 = release (Bucket_lock index) s4;
          s6 = release Bcache_lock s5
      in acquiresleep pid b s6)"

definition bget_evict :: "nat \<Rightarrow> uint \<Rightarrow> uint \<Rightarrow> nat \<Rightarrow> state \<Rightarrow> ptr outcome option" where
  "bget_evict pid d bn index s =
     (case scan_loop 0 None None s of
        None \<Rightarrow> None
      | Some (prb, pb, s1) \<Rightarrow>
          (case prb of
             None \<Rightarrow> Some (Panic ''bget: no buffers'')
           | Some pr \<Rightarrow>
               (case nxt (deref s1 pr) of
                  None \<Rightarrow> None
                | Some b \<Rightarrow>
                    if pb \<noteq> Some index then
                      (case pb of
                         None \<Rightarrow> None
                       | Some k \<Rightarrow> Some (rebind pid d bn index b (relocate pr b k index s1)))
                    else Some (rebind pid d bn index b s1))))"

text \<open>
  \<^verbatim>\<open>bget\<close>, for the process \<open>pid\<close>: the lookup in the bucket of the block,
  the second lookup under \<^verbatim>\<open>bcache.lock\<close>, and the eviction.
  \<^verbatim>\<open>
  int index = hash(dev, blockno);
  bucket = bcache.hashtable + index;
  acquire(&bucket->lock);
  for (...) { if (...) { b->refcnt++; release(&bucket->lock); acquiresleep(&b->lock); return b; } }
  release(&bucket->lock);
  acquire(&bcache.lock);
  acquire(&bucket->lock);
  for (...) { if (...) { b->refcnt++; release(&bucket->lock); release(&bcache.lock);
                         acquiresleep(&b->lock); return b; } }
  release(&bucket->lock);
  ...
  \<close>
\<close>

definition bget :: "nat \<Rightarrow> uint \<Rightarrow> uint \<Rightarrow> state \<Rightarrow> ptr outcome option" where
  "bget pid d bn s =
     (let index = hash d bn;
          s1 = acquire (Bucket_lock index) s
      in case find_buf s1 d bn (nxt (deref s1 (Head index))) of
           None \<Rightarrow> None
         | Some (Some b) \<Rightarrow>
             Some (acquiresleep pid b
                    (release (Bucket_lock index)
                      (modify b (\<lambda>x. x\<lparr>refcnt := refcnt x + 1\<rparr>) s1)))
         | Some None \<Rightarrow>
             (let s2 = release (Bucket_lock index) s1;
                  s3 = acquire Bcache_lock s2;
                  s4 = acquire (Bucket_lock index) s3
              in case find_buf s4 d bn (nxt (deref s4 (Head index))) of
                   None \<Rightarrow> None
                 | Some (Some b) \<Rightarrow>
                     Some (acquiresleep pid b
                            (release Bcache_lock
                              (release (Bucket_lock index)
                                (modify b (\<lambda>x. x\<lparr>refcnt := refcnt x + 1\<rparr>) s4))))
                 | Some None \<Rightarrow> bget_evict pid d bn index (release (Bucket_lock index) s4)))"

subsection \<open>bread, bwrite, brelse, bpin, bunpin\<close>

text \<open>
  What \<^verbatim>\<open>bread\<close> does once \<^verbatim>\<open>bget\<close> has returned \<open>b\<close>:
  \<^verbatim>\<open>if(!b->valid) { virtio_disk_rw(b, 0); b->valid = 1; }\<close>
\<close>

definition bread_load :: "ptr \<Rightarrow> state \<Rightarrow> state" where
  "bread_load b s =
     (if valid (deref s b) = 0
      then modify b (\<lambda>x. x\<lparr>valid := 1\<rparr>) (virtio_disk_rw b False s)
      else s)"

definition bread :: "nat \<Rightarrow> uint \<Rightarrow> uint \<Rightarrow> state \<Rightarrow> ptr outcome option" where
  "bread pid d bn s =
     (case bget pid d bn s of
        None \<Rightarrow> None
      | Some (Panic msg) \<Rightarrow> Some (Panic msg)
      | Some (Blocked b s1) \<Rightarrow> Some (Blocked b s1)
      | Some (Returned b s1) \<Rightarrow> Some (Returned b (bread_load b s1)))"

text \<open>
  \<^verbatim>\<open>
  if(!holdingsleep(&b->lock)) panic("bwrite");
  virtio_disk_rw(b, 1);
  \<close>
\<close>

definition bwrite :: "nat \<Rightarrow> ptr \<Rightarrow> state \<Rightarrow> unit outcome" where
  "bwrite pid b s =
     (if \<not> holdingsleep pid b s then Panic ''bwrite''
      else Returned () (virtio_disk_rw b True s))"

text \<open>
  \<^verbatim>\<open>brelse\<close>; \<open>ticks\<close> is the value of the global tick counter when it is read.
  \<^verbatim>\<open>
  if(!holdingsleep(&b->lock)) panic("brelse");
  releasesleep(&b->lock);
  int index = hash(b->dev, b->blockno);
  acquire(&bcache.hashtable[index].lock);
  b->refcnt--;
  if (b->refcnt == 0) { b->timestamp = ticks; }
  release(&bcache.hashtable[index].lock);
  \<close>
\<close>

definition brelse :: "nat \<Rightarrow> uint \<Rightarrow> ptr \<Rightarrow> state \<Rightarrow> unit outcome" where
  "brelse pid ticks b s =
     (if \<not> holdingsleep pid b s then Panic ''brelse''
      else
        (let s1 = releasesleep b s;
             index = hash (dev (deref s1 b)) (blockno (deref s1 b));
             s2 = acquire (Bucket_lock index) s1;
             s3 = modify b (\<lambda>x. x\<lparr>refcnt := refcnt x - 1\<rparr>) s2;
             s4 = (if refcnt (deref s3 b) = 0 then modify b (\<lambda>x. x\<lparr>timestamp := ticks\<rparr>) s3
                   else s3)
         in Returned () (release (Bucket_lock index) s4)))"

text \<open>
  \<^verbatim>\<open>
  int index = hash(b->dev, b->blockno);
  acquire(&bcache.hashtable[index].lock);
  b->refcnt++;
  release(&bcache.hashtable[index].lock);
  \<close>
\<close>

definition bpin :: "ptr \<Rightarrow> state \<Rightarrow> state" where
  "bpin b s =
     (let index = hash (dev (deref s b)) (blockno (deref s b));
          s1 = acquire (Bucket_lock index) s;
          s2 = modify b (\<lambda>x. x\<lparr>refcnt := refcnt x + 1\<rparr>) s1
      in release (Bucket_lock index) s2)"

text \<open>The same with \<^verbatim>\<open>b->refcnt--\<close>.\<close>

definition bunpin :: "ptr \<Rightarrow> state \<Rightarrow> state" where
  "bunpin b s =
     (let index = hash (dev (deref s b)) (blockno (deref s b));
          s1 = acquire (Bucket_lock index) s;
          s2 = modify b (\<lambda>x. x\<lparr>refcnt := refcnt x - 1\<rparr>) s1
      in release (Bucket_lock index) s2)"

subsection \<open>Chains, as the code's pointers spell them\<close>

text \<open>The C field \<^verbatim>\<open>next\<close> of the buffer at an address.\<close>

definition nexts :: "state \<Rightarrow> ptr \<Rightarrow> ptr option" where
  "nexts s p = nxt (deref s p)"

text \<open>
  \<open>path nx p xs\<close>: following \<open>nx\<close> from the pointer \<open>p\<close> visits exactly the
  buffers \<open>xs\<close>, in this order, and then reaches the null pointer.
\<close>

fun path :: "(ptr \<Rightarrow> ptr option) \<Rightarrow> ptr option \<Rightarrow> ptr list \<Rightarrow> bool" where
  "path nx p [] = (p = None)"
| "path nx p (x # xs) = (p = Some x \<and> path nx (nx x) xs)"

text \<open>The buffers met on the first \<open>n\<close> steps from \<open>p\<close>.\<close>

fun walk :: "nat \<Rightarrow> (ptr \<Rightarrow> ptr option) \<Rightarrow> ptr option \<Rightarrow> ptr list" where
  "walk 0 nx p = []"
| "walk (Suc n) nx p = (case p of None \<Rightarrow> [] | Some x \<Rightarrow> x # walk n nx (nx x))"

text \<open>
  The chain of bucket \<open>k\<close>: the buffers after \<^verbatim>\<open>hashtable[k].head\<close>. A chain
  without a cycle has at most \<^verbatim>\<open>NBUF\<close> members, so \<^verbatim>\<open>NBUF\<close> steps
  see all of it.
\<close>

definition chain :: "state \<Rightarrow> nat \<Rightarrow> ptr list" where
  "chain s k = walk (length (bufs s)) (nexts s) (nexts s (Head k))"

text \<open>The order in which the eviction scan meets the buffers: bucket by bucket.\<close>

definition scan_order :: "state \<Rightarrow> ptr list" where
  "scan_order s = concat (map (chain s) [0..<NBUCKET])"

text \<open>The addresses of the pool \<^verbatim>\<open>bcache.buf[0 .. NBUF-1]\<close>.\<close>

definition slots :: "state \<Rightarrow> ptr set" where
  "slots s = set (map Slot [0..<length (bufs s)])"

text \<open>
  The shape \<^verbatim>\<open>binit\<close> sets up and every function keeps: there are
  \<^verbatim>\<open>NBUCKET\<close> buckets, every chain ends in the null pointer, and every buffer
  of the pool is in exactly one chain, once.
\<close>

definition wf :: "state \<Rightarrow> bool" where
  "wf s = (length (hashtable s) = NBUCKET \<and>
           list_all (\<lambda>k. path (nexts s) (nexts s (Head k)) (chain s k)) [0..<NBUCKET] \<and>
           distinct (scan_order s) \<and> set (scan_order s) = slots s)"

text \<open>The identity of a buffer, and the bucket this identity hashes to.\<close>

definition ident :: "state \<Rightarrow> ptr \<Rightarrow> uint \<times> uint" where
  "ident s p = (dev (deref s p), blockno (deref s p))"

definition home :: "state \<Rightarrow> ptr \<Rightarrow> nat" where
  "home s p = hash (dev (deref s p)) (blockno (deref s p))"

text \<open>
  The running champion of the scan as a function of the buffers met so far: a buffer
  with \<^verbatim>\<open>refcnt == 0\<close> replaces the champion when there is none yet or when its
  timestamp is strictly smaller.
\<close>

definition lru_step :: "state \<Rightarrow> ptr \<Rightarrow> ptr option \<Rightarrow> ptr option" where
  "lru_step s c best =
     (if refcnt (deref s c) = 0 \<and>
         (case best of None \<Rightarrow> True | Some q \<Rightarrow> timestamp (deref s c) < timestamp (deref s q))
      then Some c else best)"

definition lru :: "state \<Rightarrow> ptr list \<Rightarrow> ptr option \<Rightarrow> ptr option" where
  "lru s xs best = fold (lru_step s) xs best"

subsection \<open>Runs of the interface\<close>

text \<open>
  The states the cache can be in: the state after \<^verbatim>\<open>binit\<close> on the zeroed
  \<^verbatim>\<open>bcache\<close>, and any state that a call of the interface on a buffer of the
  pool leaves behind, also when the call suspends in \<^verbatim>\<open>acquiresleep\<close> (and
  is resumed later), and after a client has written the payload. The parameter
  \<open>held\<close> is what callers of \<^verbatim>\<open>brelse\<close>, \<^verbatim>\<open>bpin\<close> and
  \<^verbatim>\<open>bunpin\<close> owe for the buffer they pass.
\<close>

inductive run :: "(state \<Rightarrow> ptr \<Rightarrow> bool) \<Rightarrow> state \<Rightarrow> bool" for held where
  boot: "run held (binit (bcache0 n bsize dsk))"
| bget_returns: "run held s \<Longrightarrow> bget pid d bn s = Some (Returned b s') \<Longrightarrow> run held s'"
| bget_blocks: "run held s \<Longrightarrow> bget pid d bn s = Some (Blocked b s') \<Longrightarrow> run held s'"
| resumes: "run held s \<Longrightarrow> i < length (bufs s) \<Longrightarrow>
            acquiresleep pid (Slot i) s = Returned b s' \<Longrightarrow> run held s'"
| loads: "run held s \<Longrightarrow> i < length (bufs s) \<Longrightarrow> run held (bread_load (Slot i) s)"
| payload: "run held s \<Longrightarrow> i < length (bufs s) \<Longrightarrow>
            run held (modify (Slot i) (\<lambda>x. x\<lparr>data := bytes\<rparr>) s)"
| bwrite: "run held s \<Longrightarrow> i < length (bufs s) \<Longrightarrow>
           bwrite pid (Slot i) s = Returned u s' \<Longrightarrow> run held s'"
| brelse: "run held s \<Longrightarrow> i < length (bufs s) \<Longrightarrow> held s (Slot i) \<Longrightarrow>
           brelse pid ticks (Slot i) s = Returned u s' \<Longrightarrow> run held s'"
| bpin: "run held s \<Longrightarrow> i < length (bufs s) \<Longrightarrow> held s (Slot i) \<Longrightarrow>
         run held (bpin (Slot i) s)"
| bunpin: "run held s \<Longrightarrow> i < length (bufs s) \<Longrightarrow> held s (Slot i) \<Longrightarrow>
           run held (bunpin (Slot i) s)"

text \<open>Any caller whatsoever.\<close>

definition reachable :: "state \<Rightarrow> bool" where
  "reachable s = run (\<lambda>s b. True) s"

text \<open>
  Callers that release, pin and unpin only buffers they hold a reference to
  (\<^verbatim>\<open>refcnt\<close> is not zero).
\<close>

definition referenced :: "state \<Rightarrow> ptr \<Rightarrow> bool" where
  "referenced s b = (refcnt (deref s b) \<noteq> 0)"

definition reachable_held :: "state \<Rightarrow> bool" where
  "reachable_held s = run referenced s"

subsection \<open>Observations used in the statements\<close>

text \<open>The fields of a buffer other than \<^verbatim>\<open>next\<close>.\<close>

definition body :: "state \<Rightarrow> ptr \<Rightarrow> buf" where
  "body s p = (deref s p)\<lparr>nxt := None\<rparr>"

text \<open>
  The buffer \<^verbatim>\<open>prev_replace_buf->next\<close>, the champion of the scan, for a
  possibly null \<^verbatim>\<open>prev_replace_buf\<close>.
\<close>

definition champ :: "state \<Rightarrow> ptr option \<Rightarrow> ptr option" where
  "champ s prb = (case prb of None \<Rightarrow> None | Some pr \<Rightarrow> nexts s pr)"

text \<open>
  What the lookup loop of \<^verbatim>\<open>bget\<close> finds: the first buffer with the identity
  \<open>(d, bn)\<close> in the chain of the bucket \<open>hash d bn\<close>.
\<close>

definition lookup :: "state \<Rightarrow> uint \<Rightarrow> uint \<Rightarrow> ptr option" where
  "lookup s d bn =
     find (\<lambda>q. dev (deref s q) = d \<and> blockno (deref s q) = bn) (chain s (hash d bn))"

text \<open>The value a call returns, if it returns.\<close>

definition returned :: "'a outcome option \<Rightarrow> 'a option" where
  "returned r = (case r of Some (Returned b s') \<Rightarrow> Some b | _ \<Rightarrow> None)"

text \<open>The state a call leaves behind (\<open>s\<close> itself when the kernel panics).\<close>

definition state_after :: "state \<Rightarrow> 'a outcome option \<Rightarrow> state" where
  "state_after s r =
     (case r of Some (Returned b s') \<Rightarrow> s' | Some (Blocked b s') \<Rightarrow> s' | _ \<Rightarrow> s)"

subsection \<open>Properties of a cache\<close>

text \<open>
  Three properties that every run keeps. Every buffer that carries an identity other
  than the all-zero one is in the chain of the bucket its identity hashes to; no two
  buffers carry the same identity other than the all-zero one; every buffer with a
  reference is what the lookup loop finds for its identity (so it is in the chain of
  the bucket its identity hashes to, before any other buffer with this identity).
\<close>

definition bound_home :: "state \<Rightarrow> bool" where
  "bound_home s = (\<forall>p\<in>slots s. ident s p \<noteq> (0, 0) \<longrightarrow> p \<in> set (chain s (home s p)))"

definition unique_ident :: "state \<Rightarrow> bool" where
  "unique_ident s =
     (\<forall>p\<in>slots s. \<forall>q\<in>slots s. ident s p = ident s q \<and> ident s p \<noteq> (0, 0) \<longrightarrow> p = q)"

definition held_found :: "state \<Rightarrow> bool" where
  "held_found s =
     (\<forall>p\<in>slots s. referenced s p \<longrightarrow> lookup s (dev (deref s p)) (blockno (deref s p)) = Some p)"



text \<open>A step that leaves every chain link and every identity as it is.\<close>

definition quiet :: "state \<Rightarrow> state \<Rightarrow> bool" where
  "quiet s s' =
     (nexts s' = nexts s \<and> length (bufs s') = length (bufs s) \<and>
      length (hashtable s') = length (hashtable s) \<and>
      (\<forall>p. dev (deref s' p) = dev (deref s p) \<and> blockno (deref s' p) = blockno (deref s p)))"

text \<open>The chain of bucket \<open>k\<close> once \<^verbatim>\<open>binit\<close> has linked the first \<open>i\<close> buffers.\<close>

definition binit_chain :: "nat \<Rightarrow> nat \<Rightarrow> ptr list" where
  "binit_chain i k = map Slot (rev (filter (\<lambda>j. j mod NBUCKET = k) [0..<i]))"

subsection \<open>Concrete caches\<close>

text \<open>
  \<open>boot30\<close>: \<^verbatim>\<open>NBUF = 30\<close> buffers of 8 bytes over a zeroed disk, after
  \<^verbatim>\<open>binit\<close>. From there:
  \<^item> \<open>held26\<close>: process 1 has fetched block 5 of device 1 (a miss that moves slot 26
    from bucket 0 to bucket 6); \<open>pinned26\<close>: that buffer pinned once more;
    \<open>released26\<close>: that buffer released at tick 9; \<open>evict13\<close>: process 1 has
    fetched block 6 of device 1 as well (a miss that takes slot 13);
  \<^item> \<open>zero26\<close>: process 1 has fetched block 0 of device 0, a hit on slot 26, which
    carries the all-zero identity since \<^verbatim>\<open>binit\<close>;
  \<^item> \<open>inplace26\<close>: process 1 has fetched block 13 of device 0, which hashes to
    bucket 0, where the champion, slot 26, already is;
  \<^item> \<open>loaded26\<close>: process 1 has read block 5 of device 1 with \<^verbatim>\<open>bread\<close>;
    \<open>idle26\<close>: and released it at tick 9.

  \<open>boot2\<close> is a pool of two buffers; in \<open>full2\<close> both are taken.
\<close>

definition boot30 :: state where
  "boot30 = binit (bcache0 30 8 (\<lambda>_. replicate 8 0))"

definition held26 :: state where
  "held26 = state_after boot30 (bget 1 1 5 boot30)"

definition pinned26 :: state where
  "pinned26 = bpin (Slot 26) held26"

definition released26 :: state where
  "released26 = state_after held26 (Some (brelse 1 9 (Slot 26) held26))"

definition evict13 :: state where
  "evict13 = state_after held26 (bget 1 1 6 held26)"


definition inplace26 :: state where
  "inplace26 = state_after boot30 (bget 1 0 13 boot30)"

definition loaded26 :: state where
  "loaded26 = state_after boot30 (bread 1 1 5 boot30)"

definition idle26 :: state where
  "idle26 = state_after loaded26 (Some (brelse 1 9 (Slot 26) loaded26))"

definition boot2 :: state where
  "boot2 = binit (bcache0 2 8 (\<lambda>_. replicate 8 0))"

definition one2 :: state where
  "one2 = state_after boot2 (bget 1 1 1 boot2)"

definition full2 :: state where
  "full2 = state_after one2 (bget 1 1 2 one2)"

section \<open>The store and the chains\<close>

subsection \<open>Reads after writes\<close>

lemma valid_ptr_store [simp]: "valid_ptr (store p b s) q = valid_ptr s q"
  by (simp add: store_def valid_ptr_def split: ptr.splits)

lemma valid_ptr_modify [simp]: "valid_ptr (modify p f s) q = valid_ptr s q"
  by (simp add: modify_def)

lemma valid_ptr_log_event [simp]: "valid_ptr (log_event e s) q = valid_ptr s q"
  by (simp add: log_event_def valid_ptr_def split: ptr.splits)

lemma deref_store:
  "deref (store p b s) q = (if q = p \<and> valid_ptr s p then b else deref s q)"
  by (auto simp: store_def deref_def valid_ptr_def list_update_beyond not_less split: ptr.splits)

lemma deref_modify:
  "deref (modify p f s) q = (if q = p \<and> valid_ptr s p then f (deref s p) else deref s q)"
  by (simp add: modify_def deref_store)

lemma deref_log_event [simp]: "deref (log_event e s) = deref s"
  by (rule ext) (simp add: log_event_def deref_def split: ptr.splits)

lemma length_hashtable_store [simp]: "length (hashtable (store p b s)) = length (hashtable s)"
  by (simp add: store_def split: ptr.splits)

lemma length_hashtable_modify [simp]: "length (hashtable (modify p f s)) = length (hashtable s)"
  by (simp add: modify_def)

lemma bufs_log_event [simp]: "bufs (log_event e s) = bufs s"
  by (simp add: log_event_def)

lemma hashtable_log_event [simp]: "hashtable (log_event e s) = hashtable s"
  by (simp add: log_event_def)

lemma disk_log_event [simp]: "disk (log_event e s) = disk s"
  by (simp add: log_event_def)

lemma trace_log_event [simp]: "trace (log_event e s) = trace s @ [e]"
  by (simp add: log_event_def)

lemma trace_modify [simp]: "trace (modify p f s) = trace s"
  by (simp add: modify_def store_def split: ptr.splits)

lemma disk_modify [simp]: "disk (modify p f s) = disk s"
  by (simp add: modify_def store_def split: ptr.splits)

lemma nexts_log_event [simp]: "nexts (log_event e s) = nexts s"
  by (rule ext) (simp add: nexts_def)

lemma nexts_modify:
  "valid_ptr s p \<Longrightarrow> nexts (modify p f s) = (nexts s)(p := nxt (f (deref s p)))"
  by (rule ext) (simp add: nexts_def deref_modify)

lemma nexts_modify_same:
  "(\<And>x. nxt (f x) = nxt x) \<Longrightarrow> nexts (modify p f s) = nexts s"
  by (rule ext) (simp add: nexts_def deref_modify)

subsection \<open>Paths\<close>

lemma path_unique: "path nx p xs \<Longrightarrow> path nx p ys \<Longrightarrow> xs = ys"
proof (induction xs arbitrary: p ys)
  case Nil
  then show ?case by (cases ys) auto
next
  case (Cons x xs)
  then show ?case by (cases ys) auto
qed

lemma path_append: "path nx p (xs @ ys) \<Longrightarrow> \<exists>q. path nx q ys"
  by (induction xs arbitrary: p) auto

lemma path_head_notin: "path nx (nx a) xs \<Longrightarrow> a \<notin> set xs"
proof
  assume p: "path nx (nx a) xs" and "a \<in> set xs"
  then obtain ys zs where xs: "xs = ys @ a # zs" by (auto simp: in_set_conv_decomp)
  have "\<And>p. path nx p (ys @ a # zs) \<Longrightarrow> path nx (nx a) zs"
    by (induction ys) auto
  with p xs have "path nx (nx a) zs" by blast
  with p have "xs = zs" by (rule path_unique)
  with xs show False by simp
qed

lemma path_distinct: "path nx p xs \<Longrightarrow> distinct xs"
  by (induction xs arbitrary: p) (auto dest: path_head_notin)

lemma path_upd: "a \<notin> set xs \<Longrightarrow> path (nx(a := v)) p xs = path nx p xs"
  by (induction xs arbitrary: p) auto

lemma path_walk: "path nx p xs \<Longrightarrow> length xs \<le> n \<Longrightarrow> walk n nx p = xs"
proof (induction n nx p arbitrary: xs rule: walk.induct)
  case (1 nx p)
  then show ?case by simp
next
  case (2 n nx p)
  then show ?case by (cases xs) auto
qed

subsection \<open>The loops over a chain that ends\<close>

lemma find_buf_path:
  "path (nexts s) p xs \<Longrightarrow>
   find_buf s d bn p = Some (find (\<lambda>q. dev (deref s q) = d \<and> blockno (deref s q) = bn) xs)"
proof (induction xs arbitrary: p)
  case Nil
  then show ?case by (subst find_buf.simps) simp
next
  case (Cons x xs)
  then show ?case by (subst find_buf.simps) (auto simp: nexts_def)
qed

lemma lru_Nil [simp]: "lru s [] best = best"
  by (simp add: lru_def)

lemma lru_Cons [simp]: "lru s (x # xs) best = lru s xs (lru_step s x best)"
  by (simp add: lru_def)

lemma lru_append [simp]: "lru s (xs @ ys) best = lru s ys (lru s xs best)"
  by (simp add: lru_def)

lemma scan_bucket_path:
  assumes "path (nexts s) (nexts s b) xs" and "prb \<noteq> None \<longrightarrow> champ s prb \<noteq> None"
  shows "\<exists>found' prb'. scan_bucket s b found prb = Some (found', prb') \<and>
           champ s prb' = lru s xs (champ s prb) \<and>
           ((found' = found \<and> prb' = prb) \<or>
            (found' \<and> (\<exists>pr c. prb' = Some pr \<and> pr \<in> set (b # xs) \<and>
                          nexts s pr = Some c \<and> c \<in> set xs)))"
  using assms
proof (induction xs arbitrary: b found prb)
  case Nil
  then show ?case by (subst scan_bucket.simps) (simp add: nexts_def)
next
  case (Cons c xs)
  from Cons.prems have nb: "nexts s b = Some c" and p: "path (nexts s) (nexts s c) xs"
    by auto
  show ?case
  proof (cases "lru_step s c (champ s prb) = Some c \<and> refcnt (deref s c) = 0 \<and>
      (case champ s prb of None \<Rightarrow> True | Some q \<Rightarrow> timestamp (deref s c) < timestamp (deref s q))")
    case True
    have ok: "Some b \<noteq> None \<longrightarrow> champ s (Some b) \<noteq> None"
      by (simp add: champ_def nb)
    from Cons.IH [OF p ok, of True] obtain found' prb' where
      r: "scan_bucket s c True (Some b) = Some (found', prb')"
      and c: "champ s prb' = lru s xs (champ s (Some b))"
      and d: "(found' = True \<and> prb' = Some b) \<or>
            (found' \<and> (\<exists>pr c'. prb' = Some pr \<and> pr \<in> set (c # xs) \<and>
                          nexts s pr = Some c' \<and> c' \<in> set xs))"
      by blast
    have step: "scan_bucket s b found prb = scan_bucket s c True (Some b)"
      using True Cons.prems(2) nb
      by (subst scan_bucket.simps) (auto simp: nexts_def champ_def split: option.splits)
    have "champ s (Some b) = lru_step s c (champ s prb)"
      using True by (simp add: champ_def nb)
    with r c d step nb show ?thesis by auto
  next
    case False
    then have keep: "lru_step s c (champ s prb) = champ s prb"
      by (auto simp: lru_step_def split: option.splits if_splits)
    from False have no: "\<not> (refcnt (deref s c) = 0 \<and>
      (case champ s prb of None \<Rightarrow> True | Some q \<Rightarrow> timestamp (deref s c) < timestamp (deref s q)))"
      by (auto simp: lru_step_def split: option.splits if_splits)
    have step: "scan_bucket s b found prb = scan_bucket s c found prb"
      using no Cons.prems(2) nb
      by (subst scan_bucket.simps) (auto simp: nexts_def champ_def split: option.splits)
    from Cons.IH [OF p Cons.prems(2), of found] obtain found' prb' where
      r: "scan_bucket s c found prb = Some (found', prb')"
      and c: "champ s prb' = lru s xs (champ s prb)"
      and d: "(found' = found \<and> prb' = prb) \<or>
            (found' \<and> (\<exists>pr c'. prb' = Some pr \<and> pr \<in> set (c # xs) \<and>
                          nexts s pr = Some c' \<and> c' \<in> set xs))"
      by blast
    with keep step show ?thesis by auto
  qed
qed

lemma chain_log_event [simp]: "chain (log_event e s) = chain s"
  by (rule ext) (simp add: chain_def)

lemma scan_order_log_event [simp]: "scan_order (log_event e s) = scan_order s"
  by (simp add: scan_order_def)

lemma slots_log_event [simp]: "slots (log_event e s) = slots s"
  by (simp add: slots_def)

lemma wf_log_event [simp]: "wf (log_event e s) = wf s"
  by (simp add: wf_def)

lemma lru_step_log_event [simp]: "lru_step (log_event e s) = lru_step s"
  by (rule ext)+ (simp add: lru_step_def cong: option.case_cong)

lemma lru_log_event [simp]: "lru (log_event e s) = lru s"
  by (rule ext)+ (simp add: lru_def)

lemma champ_log_event [simp]: "champ (log_event e s) = champ s"
  by (rule ext)+ (simp add: champ_def cong: option.case_cong)

lemma ident_log_event [simp]: "ident (log_event e s) = ident s"
  by (rule ext) (simp add: ident_def)

lemma home_log_event [simp]: "home (log_event e s) = home s"
  by (rule ext) (simp add: home_def)

lemma wf_path: "wf s \<Longrightarrow> k < NBUCKET \<Longrightarrow> path (nexts s) (nexts s (Head k)) (chain s k)"
  by (simp add: wf_def list_all_iff)

lemma chain_subset_scan_order: "k < NBUCKET \<Longrightarrow> set (chain s k) \<subseteq> set (scan_order s)"
  by (auto simp: scan_order_def)

lemma wf_chain_slots: "wf s \<Longrightarrow> k < NBUCKET \<Longrightarrow> p \<in> set (chain s k) \<Longrightarrow> p \<in> slots s"
  using chain_subset_scan_order [of k s] by (auto simp: wf_def)

lemma scan_order_upto:
  "cur < NBUCKET \<Longrightarrow>
   concat (map (chain s) [0..<Suc cur]) = concat (map (chain s) [0..<cur]) @ chain s cur"
  by simp

lemma scan_loop_wf:
  assumes "wf s" and "cur \<le> NBUCKET"
    and "champ s prb = lru s (concat (map (chain s) [0..<cur])) None"
    and "(prb = None \<and> pb = None) \<or>
         (\<exists>pr k c. prb = Some pr \<and> pb = Some k \<and> k < NBUCKET \<and> pr \<in> set (Head k # chain s k) \<and>
                    nexts s pr = Some c \<and> c \<in> set (chain s k))"
  shows "\<exists>prb' pb' s'. scan_loop cur prb pb s = Some (prb', pb', s') \<and>
           bufs s' = bufs s \<and> hashtable s' = hashtable s \<and> disk s' = disk s \<and>
           champ s prb' = lru s (scan_order s) None \<and>
           ((prb' = None \<and> pb' = None) \<or>
            (\<exists>pr k c. prb' = Some pr \<and> pb' = Some k \<and> k < NBUCKET \<and>
                       pr \<in> set (Head k # chain s k) \<and>
                       nexts s pr = Some c \<and> c \<in> set (chain s k)))"
  using assms
proof (induction "NBUCKET - cur" arbitrary: cur prb pb s)
  case 0
  then have "cur = NBUCKET" by simp
  with 0 show ?case
    by (subst scan_loop.simps) (simp add: scan_order_def)
next
  case (Suc n)
  then have cur: "cur < NBUCKET" by simp
  let ?s1 = "acquire (Bucket_lock cur) s"
  have p: "path (nexts ?s1) (nexts ?s1 (Head cur)) (chain s cur)"
    using wf_path [OF Suc.prems(1) cur] by (simp add: acquire_def)
  have ok: "prb \<noteq> None \<longrightarrow> champ ?s1 prb \<noteq> None"
    using Suc.prems(4) by (auto simp: acquire_def champ_def)
  from scan_bucket_path [OF p ok, of False] obtain found' prb' where
    r: "scan_bucket ?s1 (Head cur) False prb = Some (found', prb')"
    and c: "champ s prb' = lru s (chain s cur) (champ s prb)"
    and d: "(found' = False \<and> prb' = prb) \<or>
            (found' \<and> (\<exists>pr c. prb' = Some pr \<and> pr \<in> set (Head cur # chain s cur) \<and>
                          nexts s pr = Some c \<and> c \<in> set (chain s cur)))"
    by (auto simp: acquire_def)
  have c': "champ s prb' = lru s (concat (map (chain s) [0..<Suc cur])) None"
    using c Suc.prems(3) by simp
  have n: "n = NBUCKET - Suc cur" using Suc.hyps(2) by simp
  have le: "Suc cur \<le> NBUCKET" using cur by simp
  show ?case
  proof (cases found')
    case False
    with d have same: "prb' = prb" by simp
    let ?s2 = "release (Bucket_lock cur) ?s1"
    have w2: "wf ?s2" using Suc.prems(1) by (simp add: acquire_def release_def)
    have "\<exists>prb'' pb' s'. scan_loop (Suc cur) prb' pb ?s2 = Some (prb'', pb', s') \<and>
           bufs s' = bufs ?s2 \<and> hashtable s' = hashtable ?s2 \<and> disk s' = disk ?s2 \<and>
           champ ?s2 prb'' = lru ?s2 (scan_order ?s2) None \<and>
           ((prb'' = None \<and> pb' = None) \<or>
            (\<exists>pr k c. prb'' = Some pr \<and> pb' = Some k \<and> k < NBUCKET \<and>
                       pr \<in> set (Head k # chain ?s2 k) \<and>
                       nexts ?s2 pr = Some c \<and> c \<in> set (chain ?s2 k)))"
      using c' Suc.prems(4) same
      by (intro Suc.hyps(1) [OF n w2 le]) (simp_all add: acquire_def release_def)
    moreover have "scan_loop cur prb pb s = scan_loop (Suc cur) prb' pb ?s2"
      using cur r False by (subst scan_loop.simps) (simp add: Let_def)
    ultimately show ?thesis by (simp add: acquire_def release_def)
  next
    case True
    let ?s2 = "case pb of None \<Rightarrow> ?s1 | Some k \<Rightarrow> release (Bucket_lock k) ?s1"
    have heap: "bufs ?s2 = bufs s" "hashtable ?s2 = hashtable s" "disk ?s2 = disk s"
      "nexts ?s2 = nexts s" "chain ?s2 = chain s" "champ ?s2 = champ s" "lru ?s2 = lru s"
      "scan_order ?s2 = scan_order s"
      by (simp_all add: acquire_def release_def split: option.splits)
    have w2: "wf ?s2" using Suc.prems(1)
      by (simp add: acquire_def release_def split: option.splits)
    from True d obtain pr c where
      pr: "prb' = Some pr" "pr \<in> set (Head cur # chain s cur)" "nexts s pr = Some c"
        "c \<in> set (chain s cur)"
      by auto
    have "\<exists>prb'' pb' s'. scan_loop (Suc cur) prb' (Some cur) ?s2 = Some (prb'', pb', s') \<and>
           bufs s' = bufs ?s2 \<and> hashtable s' = hashtable ?s2 \<and> disk s' = disk ?s2 \<and>
           champ ?s2 prb'' = lru ?s2 (scan_order ?s2) None \<and>
           ((prb'' = None \<and> pb' = None) \<or>
            (\<exists>pr k c. prb'' = Some pr \<and> pb' = Some k \<and> k < NBUCKET \<and>
                       pr \<in> set (Head k # chain ?s2 k) \<and>
                       nexts ?s2 pr = Some c \<and> c \<in> set (chain ?s2 k)))"
    proof (intro Suc.hyps(1) [OF n w2 le])
      show "champ ?s2 prb' = lru ?s2 (concat (map (chain ?s2) [0..<Suc cur])) None"
        using c' by (simp only: heap)
      show "prb' = None \<and> Some cur = None \<or>
        (\<exists>pr k c. prb' = Some pr \<and> Some cur = Some k \<and> k < NBUCKET \<and>
          pr \<in> set (Head k # chain ?s2 k) \<and> nexts ?s2 pr = Some c \<and> c \<in> set (chain ?s2 k))"
        using pr cur by (simp only: heap) blast
    qed
    moreover have "scan_loop cur prb pb s = scan_loop (Suc cur) prb' (Some cur) ?s2"
      using cur r True by (subst scan_loop.simps) (simp add: Let_def)
    ultimately show ?thesis by (simp only: heap)
  qed
qed

subsection \<open>Well-formed caches\<close>

lemma distinct_concat_upt:
  "distinct (concat (map f [0..<n])) \<longleftrightarrow>
     (\<forall>k<n. distinct (f k)) \<and> (\<forall>j<n. \<forall>k<n. j \<noteq> k \<longrightarrow> set (f j) \<inter> set (f k) = {})"
proof (induction n)
  case 0
  then show ?case by simp
next
  case (Suc n)
  have "distinct (concat (map f [0..<Suc n])) \<longleftrightarrow>
        distinct (concat (map f [0..<n])) \<and> distinct (f n) \<and>
        (\<forall>j<n. set (f j) \<inter> set (f n) = {})"
    by (force simp: disjoint_iff)
  also have "\<dots> \<longleftrightarrow> (\<forall>k<Suc n. distinct (f k)) \<and>
        (\<forall>j<Suc n. \<forall>k<Suc n. j \<noteq> k \<longrightarrow> set (f j) \<inter> set (f k) = {})"
    unfolding Suc.IH
  proof (intro iffI conjI allI impI, goal_cases)
    case (1 k)
    then show ?case by (cases "k = n") auto
  next
    case (2 j k)
    then have "j < n \<or> j = n" "k < n \<or> k = n" by auto
    with 2 show ?case by (elim disjE; simp; blast)
  next
    case 3
    then show ?case by simp
  next
    case 4
    then show ?case by simp
  next
    case 5
    then show ?case by simp
  next
    case 6
    then show ?case by simp
  qed
  finally show ?case .
qed

lemma set_concat_upt: "set (concat (map f [0..<n])) = (\<Union>k<n. set (f k))"
  by auto

lemma card_slots: "card (slots s) = length (bufs s)"
proof -
  have "slots s = Slot ` {0..<length (bufs s)}" by (simp add: slots_def)
  moreover have "inj_on Slot {0..<length (bufs s)}" by (simp add: inj_on_def)
  ultimately show ?thesis by (simp add: card_image)
qed

lemma finite_slots [simp]: "finite (slots s)"
  by (simp add: slots_def)

lemma Head_notin_slots [simp]: "Head k \<notin> slots s"
  by (auto simp: slots_def)

lemma slots_valid: "p \<in> slots s \<Longrightarrow> valid_ptr s p"
  by (auto simp: slots_def valid_ptr_def)

lemma Slot_in_slots [simp]: "Slot i \<in> slots s \<longleftrightarrow> i < length (bufs s)"
  by (auto simp: slots_def)

lemma wfI:
  assumes len: "length (hashtable s) = NBUCKET"
    and paths: "\<And>k. k < NBUCKET \<Longrightarrow> path (nexts s) (nexts s (Head k)) (ch k)"
    and disj: "\<And>j k. j < NBUCKET \<Longrightarrow> k < NBUCKET \<Longrightarrow> j \<noteq> k \<Longrightarrow> set (ch j) \<inter> set (ch k) = {}"
    and cover: "(\<Union>k<NBUCKET. set (ch k)) = slots s"
  shows "wf s \<and> (\<forall>k<NBUCKET. chain s k = ch k)"
proof -
  have eq: "chain s k = ch k" if k: "k < NBUCKET" for k
  proof -
    have "set (ch k) \<subseteq> slots s" using cover k by blast
    then have "card (set (ch k)) \<le> card (slots s)" by (intro card_mono) simp_all
    moreover have "distinct (ch k)" using paths [OF k] by (rule path_distinct)
    ultimately have "length (ch k) \<le> length (bufs s)"
      by (simp add: distinct_card card_slots)
    with paths [OF k] show ?thesis unfolding chain_def by (rule path_walk)
  qed
  then have m: "map (chain s) [0..<NBUCKET] = map ch [0..<NBUCKET]" by simp
  have "distinct (concat (map ch [0..<NBUCKET]))"
    unfolding distinct_concat_upt using paths disj by (auto dest: path_distinct)
  moreover have "set (concat (map ch [0..<NBUCKET])) = slots s"
    unfolding set_concat_upt using cover .
  ultimately show ?thesis
    using len paths eq by (simp add: wf_def scan_order_def m list_all_iff)
qed

lemma wf_disjoint:
  "wf s \<Longrightarrow> j < NBUCKET \<Longrightarrow> k < NBUCKET \<Longrightarrow> j \<noteq> k \<Longrightarrow> set (chain s j) \<inter> set (chain s k) = {}"
  unfolding wf_def scan_order_def distinct_concat_upt by blast

lemma wf_cover: "wf s \<Longrightarrow> (\<Union>k<NBUCKET. set (chain s k)) = slots s"
  unfolding wf_def scan_order_def set_concat_upt by blast

lemma wf_length: "wf s \<Longrightarrow> length (hashtable s) = NBUCKET"
  by (simp add: wf_def)

lemma wf_Head_valid: "wf s \<Longrightarrow> k < NBUCKET \<Longrightarrow> valid_ptr s (Head k)"
  by (simp add: wf_def valid_ptr_def)

lemma path_successor: "path nx p xs \<Longrightarrow> pr \<in> set xs \<Longrightarrow> nx pr = Some b \<Longrightarrow> b \<in> set xs"
proof (induction xs arbitrary: p)
  case Nil
  then show ?case by simp
next
  case (Cons x xs)
  then show ?case by (cases xs) auto
qed

lemma path_unlink:
  "path nx p xs \<Longrightarrow> distinct xs \<Longrightarrow> pr \<in> set xs \<Longrightarrow> nx pr = Some b \<Longrightarrow>
   path (nx(pr := nx b)) p (remove1 b xs)"
proof (induction xs arbitrary: p)
  case Nil
  then show ?case by simp
next
  case (Cons x xs)
  show ?case
  proof (cases "pr = x")
    case True
    with Cons.prems obtain zs where xs: "xs = b # zs" and pz: "path nx (nx b) zs"
      by (cases xs) auto
    from Cons.prems(2) xs have "x \<noteq> b" "x \<notin> set zs" by auto
    then have "path (nx(x := nx b)) (nx b) zs" using pz by (simp add: path_upd del: fun_upd_apply)
    moreover have "(nx(x := nx b)) x = nx b" by simp
    moreover have "remove1 b (x # xs) = x # zs" using xs \<open>x \<noteq> b\<close> by simp
    ultimately show ?thesis using Cons.prems(1) True by (simp del: fun_upd_apply)
  next
    case False
    with Cons.prems have pr: "pr \<in> set xs" by simp
    from Cons.prems have px: "path nx (nx x) xs" by simp
    from Cons.prems(2) have dx: "distinct xs" and nx: "x \<notin> set xs" by simp_all
    from path_successor [OF px pr Cons.prems(4)] nx have "b \<noteq> x" by auto
    moreover have "path (nx(pr := nx b)) (nx x) (remove1 b xs)"
      by (rule Cons.IH [OF px dx pr Cons.prems(4)])
    ultimately show ?thesis using Cons.prems(1) False
      by (simp add: fun_upd_other del: fun_upd_apply)
  qed
qed

subsection \<open>Moving a buffer to another bucket\<close>

lemma body_log_event [simp]: "body (log_event e s) = body s"
  by (rule ext) (simp add: body_def)

lemma body_modify_nxt [simp]: "body (modify p (\<lambda>x. x\<lparr>nxt := v\<rparr>) s) = body s"
  by (rule ext) (simp add: body_def deref_modify)

lemma slots_modify [simp]: "slots (modify p f s) = slots s"
  by (simp add: slots_def)

lemma wf_pred_valid:
  "wf s \<Longrightarrow> k < NBUCKET \<Longrightarrow> pr \<in> set (Head k # chain s k) \<Longrightarrow> valid_ptr s pr"
  by (auto simp: wf_Head_valid dest: wf_chain_slots slots_valid)

lemma wf_chain_not_head: "wf s \<Longrightarrow> k < NBUCKET \<Longrightarrow> Head j \<notin> set (chain s k)"
  using wf_chain_slots [of s k "Head j"] by auto

lemma relocate_chains:
  assumes w: "wf s" and k: "k < NBUCKET" and i: "index < NBUCKET" and ne: "k \<noteq> index"
    and pr: "pr \<in> set (Head k # chain s k)" and nb: "nexts s pr = Some b"
    and b: "b \<in> set (chain s k)"
  defines "s' \<equiv> relocate pr b k index s"
  shows "wf s'"
    and "chain s' k = remove1 b (chain s k)"
    and "chain s' index = b # chain s index"
    and "\<And>j. j < NBUCKET \<Longrightarrow> j \<noteq> k \<Longrightarrow> j \<noteq> index \<Longrightarrow> chain s' j = chain s j"
    and "body s' = body s"
    and "length (bufs s') = length (bufs s)"
    and "disk s' = disk s"
    and "trace s' = trace s @ [Release (Bucket_lock k), Acquire (Bucket_lock index)]"
proof -
  let ?nx = "nexts s"
  let ?nx1 = "?nx(pr := ?nx b)"
  let ?nx3 = "?nx1(b := ?nx (Head index), Head index := Some b)"
  have vpr: "valid_ptr s pr" using w k pr by (rule wf_pred_valid)
  have bs: "b \<in> slots s" using w k b by (rule wf_chain_slots)
  then have vb: "valid_ptr s b" by (rule slots_valid)
  have vh: "valid_ptr s (Head index)" using w i by (rule wf_Head_valid)
  have pr_ne_hi: "pr \<noteq> Head index" using pr ne wf_chain_not_head [OF w k, of index] by auto
  have b_ne_h: "b \<noteq> Head j" for j using bs by auto
  have pk: "path ?nx (?nx (Head k)) (chain s k)" using w k by (rule wf_path)
  then have dk: "distinct (chain s k)" by (rule path_distinct)
  have hk: "Head k \<notin> set (chain s k)" using w k by (rule wf_chain_not_head)
  have nexts': "nexts s' = ?nx3"
    unfolding s'_def relocate_def Let_def release_def acquire_def
    using vpr vb vh pr_ne_hi
    by (simp add: nexts_modify nexts_def [symmetric] deref_modify del: fun_upd_apply)
  have len: "length (hashtable s') = NBUCKET" "length (bufs s') = length (bufs s)"
    unfolding s'_def relocate_def Let_def release_def acquire_def
    using wf_length [OF w] by simp_all
  have sl: "slots s' = slots s" by (simp add: slots_def len)
  define ch where "ch = (chain s)(k := remove1 b (chain s k), index := b # chain s index)"
  have chk: "ch k = remove1 b (chain s k)" and chi: "ch index = b # chain s index"
    and cho: "\<And>j. j \<noteq> k \<Longrightarrow> j \<noteq> index \<Longrightarrow> ch j = chain s j"
    using ne by (simp_all add: ch_def)
  have disj: "set (chain s j) \<inter> set (chain s j') = {}"
    if "j < NBUCKET" "j' < NBUCKET" "j \<noteq> j'" for j j'
    using wf_disjoint [OF w that] .
  have b_notin: "b \<notin> set (chain s j)" if "j < NBUCKET" "j \<noteq> k" for j
    using disj [OF that(1) k that(2)] b by auto
  have pr_notin: "pr \<notin> set (chain s j)" if "j < NBUCKET" "j \<noteq> k" for j
    using disj [OF that(1) k that(2)] pr wf_chain_not_head [OF w that(1), of k] by auto
  have hi_notin: "Head index \<notin> set (chain s j)" if "j < NBUCKET" for j
    using w that by (rule wf_chain_not_head)
  have keep: "path ?nx3 p (chain s j) = path ?nx p (chain s j)" if "j < NBUCKET" "j \<noteq> k" for j p
    using b_notin [OF that] pr_notin [OF that] hi_notin [OF that(1)]
    by (simp add: path_upd del: fun_upd_apply)
  have paths: "path (nexts s') (nexts s' (Head j)) (ch j)" if j: "j < NBUCKET" for j
  proof -
    consider "j = k" | "j = index" | "j \<noteq> k" "j \<noteq> index" by blast
    then show ?thesis
    proof cases
      case 1
      have "path ?nx (Some (Head k)) (Head k # chain s k)" using pk by simp
      moreover have "distinct (Head k # chain s k)" using dk hk by simp
      ultimately have "path ?nx1 (Some (Head k)) (remove1 b (Head k # chain s k))"
        using pr nb by (rule path_unlink)
      then have "path ?nx1 (?nx1 (Head k)) (remove1 b (chain s k))"
        using b_ne_h [of k] by (simp del: fun_upd_apply)
      moreover have "b \<notin> set (remove1 b (chain s k))" using dk by simp
      moreover have "Head index \<notin> set (remove1 b (chain s k))"
        using hi_notin [OF k] by (auto dest: notin_set_remove1)
      ultimately have "path ?nx3 (?nx1 (Head k)) (remove1 b (chain s k))"
        by (simp add: path_upd del: fun_upd_apply)
      moreover have "?nx3 (Head k) = ?nx1 (Head k)" using ne b_ne_h [of k] by simp
      ultimately show ?thesis using 1 by (simp add: nexts' chk del: fun_upd_apply)
    next
      case 2
      have "path ?nx (?nx (Head index)) (chain s index)" using w i by (rule wf_path)
      then have "path ?nx3 (?nx (Head index)) (chain s index)"
        using keep [OF i ne [symmetric]] by simp
      moreover have "?nx3 (Head index) = Some b" by simp
      moreover have "?nx3 b = ?nx (Head index)" using b_ne_h [of index] by simp
      ultimately show ?thesis using 2 by (simp add: nexts' chi del: fun_upd_apply)
    next
      case 3
      have "path ?nx (?nx (Head j)) (chain s j)" using w j by (rule wf_path)
      then have "path ?nx3 (?nx (Head j)) (chain s j)" using keep [OF j 3(1)] by simp
      moreover have "?nx3 (Head j) = ?nx (Head j)"
        using 3 b_ne_h [of j] pr wf_chain_not_head [OF w k, of j] by auto
      ultimately show ?thesis using 3 by (simp add: nexts' cho del: fun_upd_apply)
    qed
  qed
  have sets: "set (ch j) = (if j = k then set (chain s k) - {b}
                            else if j = index then insert b (set (chain s index))
                            else set (chain s j))" for j
    using dk ne by (auto simp: ch_def)
  have disj': "set (ch j) \<inter> set (ch j') = {}"
    if "j < NBUCKET" "j' < NBUCKET" "j \<noteq> j'" for j j'
    using disj [OF that] b_notin [OF that(1)] b_notin [OF that(2)] that(3)
    by (auto simp: sets split: if_splits)
  have cover': "(\<Union>j<NBUCKET. set (ch j)) = slots s'"
  proof -
    have "(\<Union>j<NBUCKET. set (ch j)) = (\<Union>j<NBUCKET. set (chain s j))"
    proof (intro set_eqI iffI)
      fix x assume "x \<in> (\<Union>j<NBUCKET. set (ch j))"
      then obtain j where "j < NBUCKET" "x \<in> set (ch j)" by auto
      then show "x \<in> (\<Union>j<NBUCKET. set (chain s j))"
        using k i b by (cases "j = k"; cases "j = index") (auto simp: sets)
    next
      fix x assume "x \<in> (\<Union>j<NBUCKET. set (chain s j))"
      then obtain j where j: "j < NBUCKET" "x \<in> set (chain s j)" by auto
      show "x \<in> (\<Union>j<NBUCKET. set (ch j))"
      proof (cases "x = b")
        case True
        then have "x \<in> set (ch index)" by (simp add: chi)
        with i show ?thesis by blast
      next
        case False
        with j(2) ne have "x \<in> set (ch j)" by (auto simp: sets)
        with j(1) show ?thesis by blast
      qed
    qed
    then show ?thesis using wf_cover [OF w] sl by simp
  qed
  from wfI [OF len(1) paths disj' cover'] have r: "wf s'" "\<And>j. j < NBUCKET \<Longrightarrow> chain s' j = ch j"
    by blast+
  show "wf s'" by fact
  show "chain s' k = remove1 b (chain s k)" using r(2) [OF k] ne by (simp add: ch_def)
  show "chain s' index = b # chain s index" using r(2) [OF i] by (simp add: ch_def)
  show "chain s' j = chain s j" if "j < NBUCKET" "j \<noteq> k" "j \<noteq> index" for j
    using r(2) [OF that(1)] that by (simp add: ch_def)
  show "body s' = body s"
    unfolding s'_def relocate_def Let_def release_def acquire_def by simp
  show "length (bufs s') = length (bufs s)" by fact
  show "disk s' = disk s"
    unfolding s'_def relocate_def Let_def release_def acquire_def by simp
  show "trace s' = trace s @ [Release (Bucket_lock k), Acquire (Bucket_lock index)]"
    unfolding s'_def relocate_def Let_def release_def acquire_def by simp
qed

subsection \<open>The last steps of bget\<close>

lemma chain_cong:
  "nexts s' = nexts s \<Longrightarrow> length (bufs s') = length (bufs s) \<Longrightarrow> chain s' = chain s"
  by (rule ext) (simp add: chain_def)

lemma wf_cong:
  "nexts s' = nexts s \<Longrightarrow> length (bufs s') = length (bufs s) \<Longrightarrow>
   length (hashtable s') = length (hashtable s) \<Longrightarrow> wf s' = wf s"
  using chain_cong [of s' s] by (simp add: wf_def scan_order_def slots_def)

lemma body_nexts_deref: "body s' = body s \<Longrightarrow> nexts s' = nexts s \<Longrightarrow> deref s' = deref s"
proof (rule ext)
  fix p assume b: "body s' = body s" and n: "nexts s' = nexts s"
  from b have "body s' p = body s p" by simp
  moreover from n have "nxt (deref s' p) = nxt (deref s p)" by (simp add: nexts_def fun_eq_iff)
  ultimately show "deref s' p = deref s p"
    by (cases "deref s' p"; cases "deref s p") (simp add: body_def)
qed

lemma acquiresleep_effect:
  assumes "valid_ptr s b"
  shows "\<exists>s'. acquiresleep pid b s = (if lock (deref s b) = None then Returned b s' else Blocked b s') \<and>
           nexts s' = nexts s \<and> length (bufs s') = length (bufs s) \<and>
           length (hashtable s') = length (hashtable s) \<and> disk s' = disk s \<and>
           (\<forall>p. p \<noteq> b \<longrightarrow> deref s' p = deref s p) \<and>
           deref s' b = (deref s b)\<lparr>lock := (if lock (deref s b) = None then Some pid else lock (deref s b))\<rparr> \<and>
           trace s' = trace s @ (if lock (deref s b) = None then [Acquiresleep b pid] else [])"
proof (cases "lock (deref s b) = None")
  case True
  let ?s' = "log_event (Acquiresleep b pid) (modify b (\<lambda>x. x\<lparr>lock := Some pid\<rparr>) s)"
  have "acquiresleep pid b s = Returned b ?s'" using True by (simp add: acquiresleep_def)
  moreover have "nexts ?s' = nexts s" by (simp add: nexts_modify_same)
  ultimately show ?thesis using True assms
    by (intro exI [of _ ?s']) (simp add: deref_modify)
next
  case False
  then have "acquiresleep pid b s = Blocked b s" by (simp add: acquiresleep_def)
  with False show ?thesis by (intro exI [of _ s]) auto
qed

lemma rebind_effect:
  assumes v: "valid_ptr s b"
  shows "\<exists>s'. rebind pid d bn index b s = (if lock (deref s b) = None then Returned b s' else Blocked b s') \<and>
           nexts s' = nexts s \<and> length (bufs s') = length (bufs s) \<and>
           length (hashtable s') = length (hashtable s) \<and> disk s' = disk s \<and>
           (\<forall>p. p \<noteq> b \<longrightarrow> deref s' p = deref s p) \<and>
           deref s' b = (deref s b)\<lparr>dev := d, blockno := bn, refcnt := 1, valid := 0,
              lock := (if lock (deref s b) = None then Some pid else lock (deref s b))\<rparr> \<and>
           trace s' = trace s @ [Release (Bucket_lock index), Release Bcache_lock] @
              (if lock (deref s b) = None then [Acquiresleep b pid] else [])"
proof -
  define s6 where "s6 = release Bcache_lock (release (Bucket_lock index)
     (modify b (\<lambda>x. x\<lparr>valid := 0\<rparr>) (modify b (\<lambda>x. x\<lparr>refcnt := 1\<rparr>)
       (modify b (\<lambda>x. x\<lparr>blockno := bn\<rparr>) (modify b (\<lambda>x. x\<lparr>dev := d\<rparr>) s)))))"
  have r: "rebind pid d bn index b s = acquiresleep pid b s6"
    by (simp add: rebind_def s6_def Let_def)
  have n6: "nexts s6 = nexts s"
    by (simp add: s6_def release_def nexts_modify_same)
  have d6: "deref s6 p = (if p = b then (deref s b)\<lparr>dev := d, blockno := bn, refcnt := 1, valid := 0\<rparr>
                          else deref s p)" for p
    using v by (simp add: s6_def release_def deref_modify)
  have l6: "length (bufs s6) = length (bufs s)" "length (hashtable s6) = length (hashtable s)"
    "disk s6 = disk s" "trace s6 = trace s @ [Release (Bucket_lock index), Release Bcache_lock]"
    by (simp_all add: s6_def release_def)
  have v6: "valid_ptr s6 b" using v by (simp add: s6_def release_def)
  from acquiresleep_effect [OF v6, of pid] obtain s' where
    "acquiresleep pid b s6 = (if lock (deref s6 b) = None then Returned b s' else Blocked b s')"
    "nexts s' = nexts s6" "length (bufs s') = length (bufs s6)"
    "length (hashtable s') = length (hashtable s6)" "disk s' = disk s6"
    "\<forall>p. p \<noteq> b \<longrightarrow> deref s' p = deref s6 p"
    "deref s' b = (deref s6 b)\<lparr>lock := (if lock (deref s6 b) = None then Some pid else lock (deref s6 b))\<rparr>"
    "trace s' = trace s6 @ (if lock (deref s6 b) = None then [Acquiresleep b pid] else [])"
    by blast
  then show ?thesis
    unfolding r n6 l6 by (intro exI [of _ s']) (simp add: d6)
qed

lemma hit_effect:
  assumes v: "valid_ptr s b"
  shows "\<exists>s'. acquiresleep pid b (fold release ls (modify b (\<lambda>x. x\<lparr>refcnt := refcnt x + 1\<rparr>) (fold log_event es s)))
             = (if lock (deref s b) = None then Returned b s' else Blocked b s') \<and>
           nexts s' = nexts s \<and> length (bufs s') = length (bufs s) \<and>
           length (hashtable s') = length (hashtable s) \<and> disk s' = disk s \<and>
           (\<forall>p. p \<noteq> b \<longrightarrow> deref s' p = deref s p) \<and>
           deref s' b = (deref s b)\<lparr>refcnt := refcnt (deref s b) + 1,
              lock := (if lock (deref s b) = None then Some pid else lock (deref s b))\<rparr> \<and>
           trace s' = trace s @ es @ map Release ls @
              (if lock (deref s b) = None then [Acquiresleep b pid] else [])"
proof -
  have fl: "deref (fold log_event xs t) = deref t \<and> nexts (fold log_event xs t) = nexts t \<and>
      bufs (fold log_event xs t) = bufs t \<and> hashtable (fold log_event xs t) = hashtable t \<and>
      disk (fold log_event xs t) = disk t \<and> trace (fold log_event xs t) = trace t @ xs \<and>
      valid_ptr (fold log_event xs t) b = valid_ptr t b" for xs t
    by (induction xs arbitrary: t) simp_all
  have fr: "fold release xs t = fold log_event (map Release xs) t" for xs t
    by (induction xs arbitrary: t) (simp_all add: release_def)
  define s0 where "s0 = fold log_event es s"
  define s1 where "s1 = modify b (\<lambda>x. x\<lparr>refcnt := refcnt x + 1\<rparr>) s0"
  define s2 where "s2 = fold release ls s1"
  have v0: "valid_ptr s0 b" using v fl [of es s] by (simp add: s0_def)
  have n2: "nexts s2 = nexts s"
    using fl [of "map Release ls" s1] fl [of es s]
    by (simp add: s2_def s1_def s0_def fr nexts_modify_same)
  have d2: "deref s2 p = (if p = b then (deref s b)\<lparr>refcnt := refcnt (deref s b) + 1\<rparr> else deref s p)" for p
    using fl [of "map Release ls" s1] fl [of es s] v0
    by (simp add: s2_def s1_def fr deref_modify) (simp add: s0_def)
  have l2: "length (bufs s2) = length (bufs s)" "length (hashtable s2) = length (hashtable s)"
    "disk s2 = disk s" "trace s2 = trace s @ es @ map Release ls"
    using fl [of "map Release ls" s1] fl [of es s]
    by (simp_all add: s2_def s1_def s0_def fr)
  have v2: "valid_ptr s2 b"
    using fl [of "map Release ls" s1] v0 by (simp add: s2_def s1_def fr)
  from acquiresleep_effect [OF v2, of pid] obtain s' where
    "acquiresleep pid b s2 = (if lock (deref s2 b) = None then Returned b s' else Blocked b s')"
    "nexts s' = nexts s2" "length (bufs s') = length (bufs s2)"
    "length (hashtable s') = length (hashtable s2)" "disk s' = disk s2"
    "\<forall>p. p \<noteq> b \<longrightarrow> deref s' p = deref s2 p"
    "deref s' b = (deref s2 b)\<lparr>lock := (if lock (deref s2 b) = None then Some pid else lock (deref s2 b))\<rparr>"
    "trace s' = trace s2 @ (if lock (deref s2 b) = None then [Acquiresleep b pid] else [])"
    by blast
  then show ?thesis
    unfolding n2 l2 s2_def [symmetric] s1_def [symmetric] s0_def [symmetric]
    by (intro exI [of _ s']) (simp add: d2)
qed

subsection \<open>The eviction path\<close>

lemma heap_eq:
  assumes "bufs s' = bufs s" and "hashtable s' = hashtable s"
  shows "deref s' = deref s" and "nexts s' = nexts s" and "chain s' = chain s"
    and "wf s' = wf s" and "body s' = body s" and "valid_ptr s' = valid_ptr s"
    and "lru s' = lru s" and "scan_order s' = scan_order s" and "slots s' = slots s"
proof -
  show d: "deref s' = deref s" using assms by (auto simp: deref_def fun_eq_iff split: ptr.splits)
  then show n: "nexts s' = nexts s" by (simp add: nexts_def fun_eq_iff)
  then show c: "chain s' = chain s" using assms by (intro chain_cong) simp_all
  show "wf s' = wf s" using n assms by (intro wf_cong) simp_all
  show "body s' = body s" using d by (simp add: body_def fun_eq_iff)
  show "valid_ptr s' = valid_ptr s" using assms
    by (simp add: valid_ptr_def fun_eq_iff split: ptr.splits)
  have "lru_step s' = lru_step s" unfolding lru_step_def d ..
  then show "lru s' = lru s" by (intro ext) (simp add: lru_def)
  show "scan_order s' = scan_order s" by (simp add: scan_order_def c)
  show "slots s' = slots s" using assms by (simp add: slots_def)
qed

lemma body_fields [simp]:
  "dev (body s p) = dev (deref s p)" "blockno (body s p) = blockno (deref s p)"
  "refcnt (body s p) = refcnt (deref s p)" "valid (body s p) = valid (deref s p)"
  "lock (body s p) = lock (deref s p)" "timestamp (body s p) = timestamp (deref s p)"
  "data (body s p) = data (deref s p)"
  by (simp_all add: body_def)

lemma rebound_body:
  fixes x y :: buf
  assumes "x\<lparr>nxt := None\<rparr> = y\<lparr>nxt := None\<rparr>"
  shows "(x\<lparr>dev := d, blockno := bn, refcnt := r, valid := v, lock := l\<rparr>)\<lparr>nxt := None\<rparr> =
         (y\<lparr>nxt := None\<rparr>)\<lparr>dev := d, blockno := bn, refcnt := r, valid := v, lock := l\<rparr>"
  using assms by (cases x; cases y) simp

lemma champ_Some: "champ s (Some pr) = nexts s pr"
  by (simp add: champ_def)

lemma bget_evict_effect:
  assumes w: "wf s" and i: "index < NBUCKET"
  shows "case lru s (scan_order s) None of
      None \<Rightarrow> bget_evict pid d bn index s = Some (Panic ''bget: no buffers'')
    | Some b \<Rightarrow> (\<exists>k s'. k < NBUCKET \<and> b \<in> set (chain s k) \<and>
         bget_evict pid d bn index s =
           Some (if lock (deref s b) = None then Returned b s' else Blocked b s') \<and>
         wf s' \<and> length (bufs s') = length (bufs s) \<and> disk s' = disk s \<and>
         (if k = index then chain s' = chain s
          else chain s' k = remove1 b (chain s k) \<and> chain s' index = b # chain s index \<and>
               (\<forall>j<NBUCKET. j \<noteq> k \<longrightarrow> j \<noteq> index \<longrightarrow> chain s' j = chain s j)) \<and>
         (\<forall>p. p \<noteq> b \<longrightarrow> body s' p = body s p) \<and>
         body s' b = (body s b)\<lparr>dev := d, blockno := bn, refcnt := 1, valid := 0,
            lock := (if lock (deref s b) = None then Some pid else lock (deref s b))\<rparr>)"
proof -
  have "champ s None = lru s (concat (map (chain s) [0..<0])) None"
    by (simp add: champ_def)
  from scan_loop_wf [OF w _ this, of None] obtain prb pb s1 where
    sl: "scan_loop 0 None None s = Some (prb, pb, s1)"
    and h: "bufs s1 = bufs s" "hashtable s1 = hashtable s" and dk: "disk s1 = disk s"
    and c: "champ s prb = lru s (scan_order s) None"
    and pp: "(prb = None \<and> pb = None) \<or>
            (\<exists>pr k c. prb = Some pr \<and> pb = Some k \<and> k < NBUCKET \<and>
                       pr \<in> set (Head k # chain s k) \<and>
                       nexts s pr = Some c \<and> c \<in> set (chain s k))"
    by auto
  note eq = heap_eq [OF h]
  show ?thesis
  proof (cases "lru s (scan_order s) None")
    case None
    with c pp have "prb = None" by (auto simp: champ_def)
    with sl None show ?thesis by (simp add: bget_evict_def)
  next
    case (Some b)
    with c pp obtain pr k where prb: "prb = Some pr" and pb: "pb = Some k" and k: "k < NBUCKET"
      and pr: "pr \<in> set (Head k # chain s k)" and nb: "nexts s pr = Some b"
      and b: "b \<in> set (chain s k)"
      by (auto simp: champ_def)
    have w1: "wf s1" using w eq(4) by simp
    have vb: "valid_ptr s b" using wf_chain_slots [OF w k b] by (rule slots_valid)
    have nb1: "nxt (deref s1 pr) = Some b" using nb by (simp add: eq(1) nexts_def)
    show ?thesis
    proof (cases "k = index")
      case True
      from rebind_effect [of s1 b pid d bn index] vb obtain s' where
        r: "rebind pid d bn index b s1 = (if lock (deref s1 b) = None then Returned b s' else Blocked b s')"
        and n: "nexts s' = nexts s1" and l: "length (bufs s') = length (bufs s1)"
          "length (hashtable s') = length (hashtable s1)" and d': "disk s' = disk s1"
        and o: "\<forall>p. p \<noteq> b \<longrightarrow> deref s' p = deref s1 p"
        and m: "deref s' b = (deref s1 b)\<lparr>dev := d, blockno := bn, refcnt := 1, valid := 0,
              lock := (if lock (deref s1 b) = None then Some pid else lock (deref s1 b))\<rparr>"
        by (auto simp: eq(6))
      have f3: "bget_evict pid d bn index s =
           Some (if lock (deref s b) = None then Returned b s' else Blocked b s')"
        using sl prb pb True nb1 r by (simp add: bget_evict_def eq(1))
      have f4: "wf s'" using wf_cong [OF n l] w1 by simp
      have f5: "length (bufs s') = length (bufs s)" using l h by simp
      have f6: "disk s' = disk s" using d' dk by simp
      have f7: "if k = index then chain s' = chain s
          else chain s' k = remove1 b (chain s k) \<and> chain s' index = b # chain s index \<and>
               (\<forall>j<NBUCKET. j \<noteq> k \<longrightarrow> j \<noteq> index \<longrightarrow> chain s' j = chain s j)"
        using chain_cong [OF n l(1)] eq(3) True by simp
      have f8: "\<forall>p. p \<noteq> b \<longrightarrow> body s' p = body s p"
        using o by (simp add: body_def eq(1))
      have f9: "body s' b = (body s b)\<lparr>dev := d, blockno := bn, refcnt := 1, valid := 0,
            lock := (if lock (deref s b) = None then Some pid else lock (deref s b))\<rparr>"
        using m by (simp add: body_def eq(1))
      show ?thesis
        unfolding Some option.case
        by (rule exI [of _ k], rule exI [of _ s'], intro conjI)
           (fact k, fact b, fact f3, fact f4, fact f5, fact f6, fact f7, fact f8, fact f9)
    next
      case False
      have pr1: "pr \<in> set (Head k # chain s1 k)" and nb1': "nexts s1 pr = Some b"
        and b1: "b \<in> set (chain s1 k)"
        using pr nb b by (simp_all add: eq)
      note rl = relocate_chains [OF w1 k i False pr1 nb1' b1]
      let ?s2 = "relocate pr b k index s1"
      have v2: "valid_ptr ?s2 b"
        using vb rl(6) h by (cases b) (simp_all add: valid_ptr_def relocate_def Let_def release_def acquire_def)
      from rebind_effect [OF v2, of pid d bn index] obtain s' where
        r: "rebind pid d bn index b ?s2 = (if lock (deref ?s2 b) = None then Returned b s' else Blocked b s')"
        and n: "nexts s' = nexts ?s2" and l: "length (bufs s') = length (bufs ?s2)"
          "length (hashtable s') = length (hashtable ?s2)" and d': "disk s' = disk ?s2"
        and o: "\<forall>p. p \<noteq> b \<longrightarrow> deref s' p = deref ?s2 p"
        and m: "deref s' b = (deref ?s2 b)\<lparr>dev := d, blockno := bn, refcnt := 1, valid := 0,
              lock := (if lock (deref ?s2 b) = None then Some pid else lock (deref ?s2 b))\<rparr>"
        by blast
      have b2: "body ?s2 = body s" using rl(5) eq(5) by simp
      have lk: "lock (deref ?s2 b) = lock (deref s b)"
      proof -
        have "lock (body ?s2 b) = lock (body s b)" by (simp only: b2)
        then show ?thesis by (simp only: body_fields)
      qed
      have f3: "bget_evict pid d bn index s =
           Some (if lock (deref s b) = None then Returned b s' else Blocked b s')"
        using sl prb pb False nb1 r lk by (simp add: bget_evict_def)
      have f4: "wf s'" using wf_cong [OF n l] rl(1) by simp
      have ch: "chain s' = chain ?s2" using chain_cong [OF n l(1)] by simp
      have f5: "length (bufs s') = length (bufs s)" using l rl(6) h by simp
      have f6: "disk s' = disk s" using d' rl(7) dk by simp
      have f7: "if k = index then chain s' = chain s
          else chain s' k = remove1 b (chain s k) \<and> chain s' index = b # chain s index \<and>
               (\<forall>j<NBUCKET. j \<noteq> k \<longrightarrow> j \<noteq> index \<longrightarrow> chain s' j = chain s j)"
        using rl(2,3,4) False by (simp add: ch eq)
      have f8: "\<forall>p. p \<noteq> b \<longrightarrow> body s' p = body s p"
        using o fun_cong [OF b2] by (simp add: body_def)
      have f9: "body s' b = (body s b)\<lparr>dev := d, blockno := bn, refcnt := 1, valid := 0,
            lock := (if lock (deref s b) = None then Some pid else lock (deref s b))\<rparr>"
        using rebound_body [of "deref ?s2 b" "deref s b"] fun_cong [OF b2, of b]
        unfolding body_def m lk by simp
      show ?thesis
        unfolding Some option.case
        by (rule exI [of _ k], rule exI [of _ s'], intro conjI)
           (fact k, fact b, fact f3, fact f4, fact f5, fact f6, fact f7, fact f8, fact f9)
    qed
  qed
qed

subsection \<open>What bget does to a well-formed cache\<close>

lemma hash_less [simp]: "hash d bn < NBUCKET"
  by (simp add: hash_def NBUCKET_def)

lemma lru_first_least:
  "case lru s xs None of
     None \<Rightarrow> (\<forall>p\<in>set xs. refcnt (deref s p) \<noteq> 0)
   | Some c \<Rightarrow> (\<exists>i<length xs. xs ! i = c \<and> refcnt (deref s c) = 0 \<and>
        (\<forall>j<length xs. refcnt (deref s (xs ! j)) = 0 \<longrightarrow>
             timestamp (deref s c) \<le> timestamp (deref s (xs ! j))) \<and>
        (\<forall>j<i. refcnt (deref s (xs ! j)) = 0 \<longrightarrow>
             timestamp (deref s c) < timestamp (deref s (xs ! j))))"
proof (induction xs rule: rev_induct)
  case Nil
  then show ?case by simp
next
  case (snoc x xs)
  show ?case
  proof (cases "lru s xs None")
    case None
    with snoc have all: "\<forall>p\<in>set xs. refcnt (deref s p) \<noteq> 0" by simp
    show ?thesis
    proof (cases "refcnt (deref s x) = 0")
      case True
      then have "lru s (xs @ [x]) None = Some x" using None by (simp add: lru_step_def)
      moreover have "\<forall>j<length xs. refcnt (deref s ((xs @ [x]) ! j)) \<noteq> 0"
        using all by (simp add: nth_append)
      ultimately show ?thesis using True
        by (auto intro!: exI [of _ "length xs"] simp: nth_append less_Suc_eq)
    next
      case False
      then have "lru s (xs @ [x]) None = None" using None by (simp add: lru_step_def)
      with all False show ?thesis by simp
    qed
  next
    case (Some c)
    with snoc obtain i where i: "i < length xs" "xs ! i = c" "refcnt (deref s c) = 0"
      and le: "\<forall>j<length xs. refcnt (deref s (xs ! j)) = 0 \<longrightarrow>
             timestamp (deref s c) \<le> timestamp (deref s (xs ! j))"
      and lt: "\<forall>j<i. refcnt (deref s (xs ! j)) = 0 \<longrightarrow>
             timestamp (deref s c) < timestamp (deref s (xs ! j))"
      by auto
    show ?thesis
    proof (cases "refcnt (deref s x) = 0 \<and> timestamp (deref s x) < timestamp (deref s c)")
      case True
      then have r: "lru s (xs @ [x]) None = Some x" using Some by (simp add: lru_step_def)
      have "\<forall>j<length xs. refcnt (deref s ((xs @ [x]) ! j)) = 0 \<longrightarrow>
             timestamp (deref s x) < timestamp (deref s ((xs @ [x]) ! j))"
        using le True by (auto simp: nth_append)
      then show ?thesis using True unfolding r option.case
        by (intro exI [of _ "length xs"]) (auto simp: nth_append less_Suc_eq)
    next
      case False
      then have r: "lru s (xs @ [x]) None = Some c" using Some by (auto simp: lru_step_def)
      have "\<forall>j<length (xs @ [x]). refcnt (deref s ((xs @ [x]) ! j)) = 0 \<longrightarrow>
             timestamp (deref s c) \<le> timestamp (deref s ((xs @ [x]) ! j))"
        using le False by (auto simp: nth_append less_Suc_eq)
      moreover have "\<forall>j<i. refcnt (deref s ((xs @ [x]) ! j)) = 0 \<longrightarrow>
             timestamp (deref s c) < timestamp (deref s ((xs @ [x]) ! j))"
        using lt i(1) by (auto simp: nth_append)
      ultimately show ?thesis using i unfolding r option.case
        by (intro exI [of _ i]) (simp add: nth_append)
    qed
  qed
qed

lemma lru_None_iff: "lru s xs None = None \<longleftrightarrow> (\<forall>p\<in>set xs. refcnt (deref s p) \<noteq> 0)"
proof (cases "lru s xs None")
  case None
  with lru_first_least [where s = s and xs = xs] show ?thesis by simp
next
  case (Some c)
  with lru_first_least [where s = s and xs = xs] show ?thesis by (auto intro: nth_mem)
qed

lemma find_buf_lookup:
  assumes "wf s" and "bufs s1 = bufs s" and "hashtable s1 = hashtable s"
  shows "find_buf s1 d bn (nxt (deref s1 (Head (hash d bn)))) = Some (lookup s d bn)"
proof -
  note eq = heap_eq [OF assms(2,3)]
  have "path (nexts s1) (nexts s1 (Head (hash d bn))) (chain s (hash d bn))"
    using wf_path [OF assms(1) hash_less] by (simp add: eq)
  from find_buf_path [OF this] show ?thesis by (simp add: lookup_def eq nexts_def)
qed

lemma lookup_Some:
  "lookup s d bn = Some b \<Longrightarrow>
   b \<in> set (chain s (hash d bn)) \<and> dev (deref s b) = d \<and> blockno (deref s b) = bn"
  by (auto simp: lookup_def find_Some_iff)

lemma lookup_None:
  "lookup s d bn = None \<Longrightarrow> p \<in> set (chain s (hash d bn)) \<Longrightarrow>
   \<not> (dev (deref s p) = d \<and> blockno (deref s p) = bn)"
  by (auto simp: lookup_def find_None_iff)

lemma bget_hit_effect:
  assumes w: "wf s" and l: "lookup s d bn = Some b"
  shows "\<exists>s'. bget pid d bn s =
           Some (if lock (deref s b) = None then Returned b s' else Blocked b s') \<and>
         wf s' \<and> length (bufs s') = length (bufs s) \<and> disk s' = disk s \<and>
         chain s' = chain s \<and> (\<forall>p. p \<noteq> b \<longrightarrow> body s' p = body s p) \<and>
         body s' b = (body s b)\<lparr>refcnt := refcnt (deref s b) + 1,
            lock := (if lock (deref s b) = None then Some pid else lock (deref s b))\<rparr>"
proof -
  let ?i = "hash d bn"
  let ?s1 = "acquire (Bucket_lock ?i) s"
  have f: "find_buf ?s1 d bn (nxt (deref ?s1 (Head ?i))) = Some (Some b)"
    using find_buf_lookup [OF w, of ?s1 d bn] l by (simp add: acquire_def)
  have vb: "valid_ptr s b"
    using lookup_Some [OF l] wf_chain_slots [OF w hash_less] by (auto intro: slots_valid)
  from hit_effect [OF vb, of pid "[Bucket_lock ?i]" "[Acquire (Bucket_lock ?i)]"]
  obtain s' where
    r: "acquiresleep pid b (release (Bucket_lock ?i)
          (modify b (\<lambda>x. x\<lparr>refcnt := refcnt x + 1\<rparr>) ?s1)) =
        (if lock (deref s b) = None then Returned b s' else Blocked b s')"
    and n: "nexts s' = nexts s" and len: "length (bufs s') = length (bufs s)"
      "length (hashtable s') = length (hashtable s)" and dk: "disk s' = disk s"
    and o: "\<forall>p. p \<noteq> b \<longrightarrow> deref s' p = deref s p"
    and m: "deref s' b = (deref s b)\<lparr>refcnt := refcnt (deref s b) + 1,
              lock := (if lock (deref s b) = None then Some pid else lock (deref s b))\<rparr>"
    by (auto simp: acquire_def)
  have "bget pid d bn s = Some (if lock (deref s b) = None then Returned b s' else Blocked b s')"
    using f r by (simp add: bget_def Let_def)
  moreover have "wf s'" using wf_cong [OF n len] w by simp
  moreover have "chain s' = chain s" using n len(1) by (rule chain_cong)
  moreover have "\<forall>p. p \<noteq> b \<longrightarrow> body s' p = body s p" using o by (simp add: body_def)
  moreover have "body s' b = (body s b)\<lparr>refcnt := refcnt (deref s b) + 1,
            lock := (if lock (deref s b) = None then Some pid else lock (deref s b))\<rparr>"
    using m by (simp add: body_def)
  ultimately show ?thesis using len dk by blast
qed

lemma bget_miss_effect:
  assumes w: "wf s" and l: "lookup s d bn = None"
  shows "case lru s (scan_order s) None of
      None \<Rightarrow> bget pid d bn s = Some (Panic ''bget: no buffers'')
    | Some b \<Rightarrow> (\<exists>k s'. k < NBUCKET \<and> b \<in> set (chain s k) \<and>
         bget pid d bn s =
           Some (if lock (deref s b) = None then Returned b s' else Blocked b s') \<and>
         wf s' \<and> length (bufs s') = length (bufs s) \<and> disk s' = disk s \<and>
         (if k = hash d bn then chain s' = chain s
          else chain s' k = remove1 b (chain s k) \<and>
               chain s' (hash d bn) = b # chain s (hash d bn) \<and>
               (\<forall>j<NBUCKET. j \<noteq> k \<longrightarrow> j \<noteq> hash d bn \<longrightarrow> chain s' j = chain s j)) \<and>
         (\<forall>p. p \<noteq> b \<longrightarrow> body s' p = body s p) \<and>
         body s' b = (body s b)\<lparr>dev := d, blockno := bn, refcnt := 1, valid := 0,
            lock := (if lock (deref s b) = None then Some pid else lock (deref s b))\<rparr>)"
proof -
  let ?i = "hash d bn"
  let ?s1 = "acquire (Bucket_lock ?i) s"
  let ?s4 = "acquire (Bucket_lock ?i) (acquire Bcache_lock (release (Bucket_lock ?i) ?s1))"
  let ?s5 = "release (Bucket_lock ?i) ?s4"
  have f1: "find_buf ?s1 d bn (nxt (deref ?s1 (Head ?i))) = Some None"
    using find_buf_lookup [OF w, of ?s1 d bn] l by (simp add: acquire_def)
  have f4: "find_buf ?s4 d bn (nxt (deref ?s4 (Head ?i))) = Some None"
    using find_buf_lookup [OF w, of ?s4 d bn] l by (simp add: acquire_def release_def)
  have b: "bget pid d bn s = bget_evict pid d bn ?i ?s5"
    using f1 f4 by (simp add: bget_def Let_def)
  have h: "bufs ?s5 = bufs s" "hashtable ?s5 = hashtable s" and dk: "disk ?s5 = disk s"
    by (simp_all add: acquire_def release_def)
  note eq = heap_eq [OF h]
  have w5: "wf ?s5" using w by (simp only: eq)
  from bget_evict_effect [OF w5 hash_less, of pid d bn]
  show ?thesis unfolding b eq h dk .
qed

subsection \<open>binit\<close>

lemma deref_bcache0:
  "valid_ptr (bcache0 n bsize dsk) p \<Longrightarrow> deref (bcache0 n bsize dsk) p = zero_buf bsize"
  by (cases p) (simp_all add: bcache0_def deref_def valid_ptr_def)

lemma binit_step_nexts:
  assumes i: "i < length (bufs s)" and h: "length (hashtable s) = NBUCKET"
  defines "b \<equiv> i mod NBUCKET"
  defines "s1 \<equiv> modify (Slot i) (\<lambda>x. x\<lparr>lock := None\<rparr>) s"
  defines "s2 \<equiv> modify (Slot i) (\<lambda>x. x\<lparr>nxt := nxt (deref s1 (Head b))\<rparr>) s1"
  defines "s3 \<equiv> modify (Head b) (\<lambda>x. x\<lparr>nxt := Some (Slot i)\<rparr>) s2"
  shows "nexts s3 = (nexts s)(Slot i := nexts s (Head b), Head b := Some (Slot i))"
    and "length (bufs s3) = length (bufs s)" and "length (hashtable s3) = NBUCKET"
    and "\<And>p. (deref s3 p)\<lparr>nxt := None, lock := None\<rparr> = (deref s p)\<lparr>nxt := None, lock := None\<rparr>"
proof -
  have b: "b < NBUCKET" by (simp add: b_def NBUCKET_def)
  have v: "valid_ptr s (Slot i)" "valid_ptr s (Head b)" using i h b by (simp_all add: valid_ptr_def)
  have n1: "nexts s1 = nexts s" by (simp add: s1_def nexts_modify_same)
  have n2: "nexts s2 = (nexts s)(Slot i := nexts s (Head b))"
    using v n1 by (simp add: s2_def nexts_modify s1_def nexts_def [symmetric])
  show "nexts s3 = (nexts s)(Slot i := nexts s (Head b), Head b := Some (Slot i))"
    using v n2 by (simp add: s3_def nexts_modify s2_def s1_def)
  show "length (bufs s3) = length (bufs s)" by (simp add: s3_def s2_def s1_def)
  show "length (hashtable s3) = NBUCKET" using h by (simp add: s3_def s2_def s1_def)
  show "(deref s3 p)\<lparr>nxt := None, lock := None\<rparr> = (deref s p)\<lparr>nxt := None, lock := None\<rparr>" for p
    using v by (simp add: s3_def s2_def s1_def deref_modify)
qed

lemma binit_chain_Suc:
  "binit_chain (Suc i) k = (if i mod NBUCKET = k then Slot i # binit_chain i k else binit_chain i k)"
  by (simp add: binit_chain_def)

lemma set_binit_chain: "set (binit_chain i k) = Slot ` {j. j < i \<and> j mod NBUCKET = k}"
  by (auto simp: binit_chain_def)

lemma binit_loop_inv:
  assumes "i \<le> length (bufs s)" and "length (hashtable s) = NBUCKET"
    and "\<And>k. k < NBUCKET \<Longrightarrow> path (nexts s) (nexts s (Head k)) (binit_chain i k)"
  shows "length (bufs (binit_loop i s)) = length (bufs s) \<and>
         length (hashtable (binit_loop i s)) = NBUCKET \<and>
         (\<forall>k<NBUCKET. path (nexts (binit_loop i s)) (nexts (binit_loop i s) (Head k))
             (binit_chain (length (bufs s)) k)) \<and>
         (\<forall>p. (deref (binit_loop i s) p)\<lparr>nxt := None, lock := None\<rparr> =
              (deref s p)\<lparr>nxt := None, lock := None\<rparr>)"
  using assms
proof (induction "length (bufs s) - i" arbitrary: i s)
  case 0
  then have "i = length (bufs s)" by simp
  with 0 show ?case by (subst (1 2 3 4 5) binit_loop.simps) simp
next
  case (Suc m)
  then have i: "i < length (bufs s)" by simp
  let ?b = "i mod NBUCKET"
  define s1 where "s1 = modify (Slot i) (\<lambda>x. x\<lparr>lock := None\<rparr>) s"
  define s2 where "s2 = modify (Slot i) (\<lambda>x. x\<lparr>nxt := nxt (deref s1 (Head ?b))\<rparr>) s1"
  define s3 where "s3 = modify (Head ?b) (\<lambda>x. x\<lparr>nxt := Some (Slot i)\<rparr>) s2"
  have st: "nexts s3 = (nexts s)(Slot i := nexts s (Head ?b), Head ?b := Some (Slot i))"
    "length (bufs s3) = length (bufs s)" "length (hashtable s3) = NBUCKET"
    "\<And>p. (deref s3 p)\<lparr>nxt := None, lock := None\<rparr> = (deref s p)\<lparr>nxt := None, lock := None\<rparr>"
    unfolding s3_def s2_def s1_def by (rule binit_step_nexts [OF i Suc.prems(2)])+
  have unf: "binit_loop i s = binit_loop (Suc i) s3"
    using i by (subst binit_loop.simps) (simp add: Let_def s1_def s2_def s3_def)
  have notin: "Slot i \<notin> set (binit_chain i k)" "Head j \<notin> set (binit_chain i k)" for k j
    by (auto simp: set_binit_chain)
  have paths: "path (nexts s3) (nexts s3 (Head k)) (binit_chain (Suc i) k)" if k: "k < NBUCKET" for k
  proof (cases "?b = k")
    case True
    have "path (nexts s3) (nexts s (Head k)) (binit_chain i k)"
      unfolding st(1) using Suc.prems(3) [OF k] notin by (simp add: path_upd del: fun_upd_apply)
    then show ?thesis using True by (simp add: binit_chain_Suc st(1))
  next
    case False
    have "path (nexts s3) (nexts s (Head k)) (binit_chain i k)"
      unfolding st(1) using Suc.prems(3) [OF k] notin by (simp add: path_upd del: fun_upd_apply)
    then show ?thesis using False by (simp add: binit_chain_Suc st(1))
  qed
  have "m = length (bufs s3) - Suc i" using Suc.hyps(2) st(2) by simp
  moreover have "Suc i \<le> length (bufs s3)" using i st(2) by simp
  ultimately have "length (bufs (binit_loop (Suc i) s3)) = length (bufs s3) \<and>
         length (hashtable (binit_loop (Suc i) s3)) = NBUCKET \<and>
         (\<forall>k<NBUCKET. path (nexts (binit_loop (Suc i) s3)) (nexts (binit_loop (Suc i) s3) (Head k))
             (binit_chain (length (bufs s3)) k)) \<and>
         (\<forall>p. (deref (binit_loop (Suc i) s3) p)\<lparr>nxt := None, lock := None\<rparr> =
              (deref s3 p)\<lparr>nxt := None, lock := None\<rparr>)"
    using st(3) paths by (intro Suc.hyps(1)) simp_all
  then show ?case unfolding unf st(2) using st(4) by simp
qed

lemma binit_wf:
  "wf (binit (bcache0 n bsize dsk)) \<and>
   length (bufs (binit (bcache0 n bsize dsk))) = n \<and>
   (\<forall>p\<in>slots (binit (bcache0 n bsize dsk)).
      dev (deref (binit (bcache0 n bsize dsk)) p) = 0 \<and>
      blockno (deref (binit (bcache0 n bsize dsk)) p) = 0 \<and>
      refcnt (deref (binit (bcache0 n bsize dsk)) p) = 0)"
proof -
  let ?z = "bcache0 n bsize dsk"
  let ?s = "binit ?z"
  have l0: "length (bufs ?z) = n" "length (hashtable ?z) = NBUCKET"
    by (simp_all add: bcache0_def)
  have p0: "path (nexts ?z) (nexts ?z (Head k)) (binit_chain 0 k)" if "k < NBUCKET" for k
    using that deref_bcache0 [of n bsize dsk "Head k"]
    by (simp add: binit_chain_def nexts_def valid_ptr_def l0 zero_buf_def)
  have "0 \<le> length (bufs ?z)" by simp
  from binit_loop_inv [of 0 ?z, OF this l0(2) p0]
  have r: "length (bufs ?s) = n \<and> length (hashtable ?s) = NBUCKET \<and>
      (\<forall>k<NBUCKET. path (nexts ?s) (nexts ?s (Head k)) (binit_chain n k)) \<and>
      (\<forall>p. (deref ?s p)\<lparr>nxt := None, lock := None\<rparr> = (deref ?z p)\<lparr>nxt := None, lock := None\<rparr>)"
    unfolding binit_def l0 by blast
  then have len: "length (bufs ?s) = n" "length (hashtable ?s) = NBUCKET"
    and paths: "\<And>k. k < NBUCKET \<Longrightarrow> path (nexts ?s) (nexts ?s (Head k)) (binit_chain n k)"
    and flds: "\<And>p. (deref ?s p)\<lparr>nxt := None, lock := None\<rparr> = (deref ?z p)\<lparr>nxt := None, lock := None\<rparr>"
    by blast+
  have disj: "set (binit_chain n j) \<inter> set (binit_chain n k) = {}" if "j \<noteq> k" for j k
    using that by (auto simp: set_binit_chain)
  have cover: "(\<Union>k<NBUCKET. set (binit_chain n k)) = slots ?s"
  proof (intro set_eqI iffI)
    fix p assume "p \<in> (\<Union>k<NBUCKET. set (binit_chain n k))"
    then show "p \<in> slots ?s" by (auto simp: set_binit_chain slots_def len)
  next
    fix p assume "p \<in> slots ?s"
    then obtain j where j: "p = Slot j" "j < n" by (auto simp: slots_def len)
    then have "p \<in> set (binit_chain n (j mod NBUCKET))" by (simp add: set_binit_chain)
    moreover have "j mod NBUCKET < NBUCKET" by (simp add: NBUCKET_def)
    ultimately show "p \<in> (\<Union>k<NBUCKET. set (binit_chain n k))" by blast
  qed
  from wfI [OF len(2) paths disj cover] have w: "wf ?s" by simp
  have "dev (deref ?s p) = 0 \<and> blockno (deref ?s p) = 0 \<and> refcnt (deref ?s p) = 0"
    if "p \<in> slots ?s" for p
  proof -
    from that have "valid_ptr ?z p" by (auto simp: slots_def valid_ptr_def len l0)
    then have z: "deref ?z p = zero_buf bsize" by (rule deref_bcache0)
    have "dev ((deref ?s p)\<lparr>nxt := None, lock := None\<rparr>) = dev ((deref ?z p)\<lparr>nxt := None, lock := None\<rparr>)"
      "blockno ((deref ?s p)\<lparr>nxt := None, lock := None\<rparr>) = blockno ((deref ?z p)\<lparr>nxt := None, lock := None\<rparr>)"
      "refcnt ((deref ?s p)\<lparr>nxt := None, lock := None\<rparr>) = refcnt ((deref ?z p)\<lparr>nxt := None, lock := None\<rparr>)"
      by (simp_all only: flds)
    then show ?thesis by (simp add: z zero_buf_def)
  qed
  with w len show ?thesis by blast
qed

section \<open>The claims\<close>

subsection \<open>Pin, unpin and release\<close>

lemma pin_effect:
  assumes "valid_ptr s b"
  shows "deref (bpin b s) b = (deref s b)\<lparr>refcnt := refcnt (deref s b) + 1\<rparr>"
    and "deref (bunpin b s) b = (deref s b)\<lparr>refcnt := refcnt (deref s b) - 1\<rparr>"
    and "p \<noteq> b \<Longrightarrow> deref (bpin b s) p = deref s p"
    and "p \<noteq> b \<Longrightarrow> deref (bunpin b s) p = deref s p"
    and "nexts (bpin b s) = nexts s" and "nexts (bunpin b s) = nexts s"
    and "length (bufs (bpin b s)) = length (bufs s)" and "length (bufs (bunpin b s)) = length (bufs s)"
    and "length (hashtable (bpin b s)) = length (hashtable s)"
    and "length (hashtable (bunpin b s)) = length (hashtable s)"
    and "disk (bpin b s) = disk s" and "disk (bunpin b s) = disk s"
    and "trace (bpin b s) = trace s @ [Acquire (Bucket_lock (home s b)), Release (Bucket_lock (home s b))]"
    and "trace (bunpin b s) = trace s @ [Acquire (Bucket_lock (home s b)), Release (Bucket_lock (home s b))]"
  using assms
  by (simp_all add: bpin_def bunpin_def Let_def acquire_def release_def deref_modify
      nexts_modify_same home_def)

text \<open>
  C9. \<^verbatim>\<open>bpin\<close> and \<^verbatim>\<open>bunpin\<close> change nothing but the
  \<^verbatim>\<open>refcnt\<close> of the buffer they are given, by plus one and by minus one
  (modulo \<open>2^32\<close>): every other field of that buffer, in particular its timestamp and
  its sleep lock, every other buffer, every chain link and the disk stay as they are,
  and the only locks touched are the acquire and release of the spin lock of the bucket
  the buffer's identity hashes to. \<^verbatim>\<open>bunpin\<close> never stamps the timestamp,
  also when it brings \<^verbatim>\<open>refcnt\<close> to zero.
\<close>

theorem C9_pin_unpin_only_refcnt:
  assumes "valid_ptr s b"
  shows "deref (bpin b s) b = (deref s b)\<lparr>refcnt := refcnt (deref s b) + 1\<rparr> \<and>
         deref (bunpin b s) b = (deref s b)\<lparr>refcnt := refcnt (deref s b) - 1\<rparr> \<and>
         timestamp (deref (bunpin b s) b) = timestamp (deref s b) \<and>
         lock (deref (bpin b s) b) = lock (deref s b) \<and>
         lock (deref (bunpin b s) b) = lock (deref s b) \<and>
         (\<forall>p. p \<noteq> b \<longrightarrow> deref (bpin b s) p = deref s p \<and> deref (bunpin b s) p = deref s p) \<and>
         disk (bpin b s) = disk s \<and> disk (bunpin b s) = disk s \<and>
         trace (bpin b s) =
           trace s @ [Acquire (Bucket_lock (home s b)), Release (Bucket_lock (home s b))] \<and>
         trace (bunpin b s) =
           trace s @ [Acquire (Bucket_lock (home s b)), Release (Bucket_lock (home s b))]"
  using pin_effect [OF assms] by simp

lemma held26_facts:
  "valid_ptr held26 (Slot 26)" "refcnt (deref held26 (Slot 26)) = 1"
  "timestamp (deref held26 (Slot 26)) = 0" "lock (deref held26 (Slot 26)) = Some 1"
  "home held26 (Slot 26) = 6"
  by (code_simp)+

theorem C9_pin_unpin_only_refcnt_witness:
  "valid_ptr held26 (Slot 26) \<and>
   refcnt (deref (bpin (Slot 26) held26) (Slot 26)) = 2 \<and>
   refcnt (deref (bunpin (Slot 26) held26) (Slot 26)) = 0 \<and>
   timestamp (deref (bunpin (Slot 26) held26) (Slot 26)) = 0 \<and>
   lock (deref (bunpin (Slot 26) held26) (Slot 26)) = Some 1 \<and>
   trace (bunpin (Slot 26) held26) =
     trace held26 @ [Acquire (Bucket_lock 6), Release (Bucket_lock 6)]"
  using C9_pin_unpin_only_refcnt [OF held26_facts(1)] held26_facts by simp

lemma brelse_effect:
  assumes h: "holdingsleep pid b s" and v: "valid_ptr s b"
  shows "\<exists>s'. brelse pid ticks b s = Returned () s' \<and>
         deref s' b = (deref s b)\<lparr>lock := None, refcnt := refcnt (deref s b) - 1,
              timestamp := (if refcnt (deref s b) - 1 = 0 then ticks else timestamp (deref s b))\<rparr> \<and>
         (\<forall>p. p \<noteq> b \<longrightarrow> deref s' p = deref s p) \<and> nexts s' = nexts s \<and>
         length (bufs s') = length (bufs s) \<and> length (hashtable s') = length (hashtable s) \<and>
         disk s' = disk s \<and>
         trace s' = trace s @ [Releasesleep b, Acquire (Bucket_lock (home s b)),
                               Release (Bucket_lock (home s b))]"
proof (cases "refcnt (deref s b) - 1 = 0")
  case True
  with h v show ?thesis
    by (simp add: brelse_def Let_def releasesleep_def acquire_def release_def deref_modify
        nexts_modify_same home_def)
next
  case False
  with h v show ?thesis
    by (simp add: brelse_def Let_def releasesleep_def acquire_def release_def deref_modify
        nexts_modify_same home_def)
qed

text \<open>
  C8. \<^verbatim>\<open>brelse\<close> panics when the caller does not hold the sleep lock of the
  buffer. Otherwise it returns: the sleep lock is released first (the first event it
  adds to the trace), then the spin lock of the bucket the buffer's identity hashes to
  is acquired, \<^verbatim>\<open>refcnt\<close> is decremented, the timestamp becomes \<open>ticks\<close>
  if and only if the decremented \<^verbatim>\<open>refcnt\<close> is zero (and is unchanged
  otherwise), and the spin lock is released. Nothing else changes.
\<close>

theorem C8_brelse:
  "(\<not> holdingsleep pid b s \<longrightarrow> brelse pid ticks b s = Panic ''brelse'') \<and>
   (holdingsleep pid b s \<and> valid_ptr s b \<longrightarrow>
      (\<exists>s'. brelse pid ticks b s = Returned () s' \<and>
         deref s' b = (deref s b)\<lparr>lock := None, refcnt := refcnt (deref s b) - 1,
              timestamp := (if refcnt (deref s b) - 1 = 0 then ticks else timestamp (deref s b))\<rparr> \<and>
         (\<forall>p. p \<noteq> b \<longrightarrow> deref s' p = deref s p) \<and> disk s' = disk s \<and>
         trace s' = trace s @ [Releasesleep b, Acquire (Bucket_lock (home s b)),
                               Release (Bucket_lock (home s b))]))"
proof (intro conjI impI)
  assume "\<not> holdingsleep pid b s"
  then show "brelse pid ticks b s = Panic ''brelse''" by (simp add: brelse_def)
next
  assume "holdingsleep pid b s \<and> valid_ptr s b"
  then have h: "holdingsleep pid b s" and v: "valid_ptr s b" by simp_all
  from brelse_effect [OF h v, of ticks]
  show "\<exists>s'. brelse pid ticks b s = Returned () s' \<and>
         deref s' b = (deref s b)\<lparr>lock := None, refcnt := refcnt (deref s b) - 1,
              timestamp := (if refcnt (deref s b) - 1 = 0 then ticks else timestamp (deref s b))\<rparr> \<and>
         (\<forall>p. p \<noteq> b \<longrightarrow> deref s' p = deref s p) \<and> disk s' = disk s \<and>
         trace s' = trace s @ [Releasesleep b, Acquire (Bucket_lock (home s b)),
                               Release (Bucket_lock (home s b))]"
    by blast
qed

lemma pinned26_facts:
  "valid_ptr pinned26 (Slot 26)" "refcnt (deref pinned26 (Slot 26)) = 2"
  "timestamp (deref pinned26 (Slot 26)) = 0" "holdingsleep 1 (Slot 26) pinned26"
  "home pinned26 (Slot 26) = 6"
  by (code_simp)+

lemma held26_holding: "holdingsleep 1 (Slot 26) held26" "\<not> holdingsleep 2 (Slot 26) held26"
  by (code_simp)+

theorem C8_brelse_witness:
  "\<not> holdingsleep 2 (Slot 26) held26 \<and> brelse 2 7 (Slot 26) held26 = Panic ''brelse'' \<and>
   holdingsleep 1 (Slot 26) held26 \<and> valid_ptr held26 (Slot 26) \<and>
   (\<exists>s'. brelse 1 7 (Slot 26) held26 = Returned () s' \<and>
      refcnt (deref s' (Slot 26)) = 0 \<and> timestamp (deref s' (Slot 26)) = 7 \<and>
      lock (deref s' (Slot 26)) = None) \<and>
   holdingsleep 1 (Slot 26) pinned26 \<and> valid_ptr pinned26 (Slot 26) \<and>
   (\<exists>s'. brelse 1 7 (Slot 26) pinned26 = Returned () s' \<and>
      refcnt (deref s' (Slot 26)) = 1 \<and> timestamp (deref s' (Slot 26)) = 0 \<and>
      lock (deref s' (Slot 26)) = None)"
proof -
  from C8_brelse [of 2 "Slot 26" held26 7] held26_holding(2)
  have a: "brelse 2 7 (Slot 26) held26 = Panic ''brelse''" by blast
  from C8_brelse [of 1 "Slot 26" held26 7] held26_holding(1) held26_facts(1)
  obtain s' where "brelse 1 7 (Slot 26) held26 = Returned () s'"
    "deref s' (Slot 26) = (deref held26 (Slot 26))\<lparr>lock := None,
        refcnt := refcnt (deref held26 (Slot 26)) - 1,
        timestamp := (if refcnt (deref held26 (Slot 26)) - 1 = 0 then 7
                      else timestamp (deref held26 (Slot 26)))\<rparr>"
    by blast
  then have b: "\<exists>s'. brelse 1 7 (Slot 26) held26 = Returned () s' \<and>
      refcnt (deref s' (Slot 26)) = 0 \<and> timestamp (deref s' (Slot 26)) = 7 \<and>
      lock (deref s' (Slot 26)) = None"
    by (simp add: held26_facts)
  from C8_brelse [of 1 "Slot 26" pinned26 7] pinned26_facts(4) pinned26_facts(1)
  obtain s'' where "brelse 1 7 (Slot 26) pinned26 = Returned () s''"
    "deref s'' (Slot 26) = (deref pinned26 (Slot 26))\<lparr>lock := None,
        refcnt := refcnt (deref pinned26 (Slot 26)) - 1,
        timestamp := (if refcnt (deref pinned26 (Slot 26)) - 1 = 0 then 7
                      else timestamp (deref pinned26 (Slot 26)))\<rparr>"
    by blast
  then have c: "\<exists>s'. brelse 1 7 (Slot 26) pinned26 = Returned () s' \<and>
      refcnt (deref s' (Slot 26)) = 1 \<and> timestamp (deref s' (Slot 26)) = 0 \<and>
      lock (deref s' (Slot 26)) = None"
    by (simp add: pinned26_facts)
  from a b c held26_holding held26_facts(1) pinned26_facts(1,4) show ?thesis by blast
qed

subsection \<open>The eviction scan and the miss path\<close>

lemma bget_miss_cases:
  assumes w: "wf s" and l: "lookup s d bn = None"
    and r: "bget pid d bn s = Some (Returned b s') \<or> bget pid d bn s = Some (Blocked b s')"
  shows "lru s (scan_order s) None = Some b"
    and "\<exists>k<NBUCKET. b \<in> set (chain s k) \<and>
           (if k = hash d bn then chain s' = chain s
            else chain s' k = remove1 b (chain s k) \<and>
                 chain s' (hash d bn) = b # chain s (hash d bn) \<and>
                 (\<forall>j<NBUCKET. j \<noteq> k \<longrightarrow> j \<noteq> hash d bn \<longrightarrow> chain s' j = chain s j))"
    and "wf s'" and "length (bufs s') = length (bufs s)" and "disk s' = disk s"
    and "\<And>p. p \<noteq> b \<Longrightarrow> body s' p = body s p"
    and "body s' b = (body s b)\<lparr>dev := d, blockno := bn, refcnt := 1, valid := 0,
            lock := (if lock (deref s b) = None then Some pid else lock (deref s b))\<rparr>"
    and "bget pid d bn s = Some (Returned b s') \<longleftrightarrow> lock (deref s b) = None"
proof -
  note e = bget_miss_effect [OF w l, of pid]
  obtain c where c: "lru s (scan_order s) None = Some c"
    using e r by (cases "lru s (scan_order s) None") auto
  from e [unfolded c option.case] obtain k t where
    k: "k < NBUCKET" "c \<in> set (chain s k)"
    and g: "bget pid d bn s = Some (if lock (deref s c) = None then Returned c t else Blocked c t)"
    and rest: "wf t" "length (bufs t) = length (bufs s)" "disk t = disk s"
      "if k = hash d bn then chain t = chain s
       else chain t k = remove1 c (chain s k) \<and> chain t (hash d bn) = c # chain s (hash d bn) \<and>
            (\<forall>j<NBUCKET. j \<noteq> k \<longrightarrow> j \<noteq> hash d bn \<longrightarrow> chain t j = chain s j)"
      "\<forall>p. p \<noteq> c \<longrightarrow> body t p = body s p"
      "body t c = (body s c)\<lparr>dev := d, blockno := bn, refcnt := 1, valid := 0,
            lock := (if lock (deref s c) = None then Some pid else lock (deref s c))\<rparr>"
    by blast
  from g r have bc: "b = c" "s' = t" by (auto split: if_splits)
  show "lru s (scan_order s) None = Some b" using c bc by simp
  show "\<exists>k<NBUCKET. b \<in> set (chain s k) \<and>
           (if k = hash d bn then chain s' = chain s
            else chain s' k = remove1 b (chain s k) \<and>
                 chain s' (hash d bn) = b # chain s (hash d bn) \<and>
                 (\<forall>j<NBUCKET. j \<noteq> k \<longrightarrow> j \<noteq> hash d bn \<longrightarrow> chain s' j = chain s j))"
    unfolding bc using k rest(4) by blast
  show "wf s'" "length (bufs s') = length (bufs s)" "disk s' = disk s"
    unfolding bc by fact+
  show "body s' p = body s p" if "p \<noteq> b" for p using that rest(5) bc by simp
  show "body s' b = (body s b)\<lparr>dev := d, blockno := bn, refcnt := 1, valid := 0,
            lock := (if lock (deref s b) = None then Some pid else lock (deref s b))\<rparr>"
    unfolding bc by fact
  show "bget pid d bn s = Some (Returned b s') \<longleftrightarrow> lock (deref s b) = None"
    unfolding bc g by simp
qed

lemma bget_hit_cases:
  assumes w: "wf s" and l: "lookup s d bn = Some c"
    and r: "bget pid d bn s = Some (Returned b s') \<or> bget pid d bn s = Some (Blocked b s')"
  shows "b = c" and "chain s' = chain s"
    and "wf s'" and "length (bufs s') = length (bufs s)" and "disk s' = disk s"
    and "\<And>p. p \<noteq> b \<Longrightarrow> body s' p = body s p"
    and "body s' b = (body s b)\<lparr>refcnt := refcnt (deref s b) + 1,
            lock := (if lock (deref s b) = None then Some pid else lock (deref s b))\<rparr>"
    and "bget pid d bn s = Some (Returned b s') \<longleftrightarrow> lock (deref s b) = None"
proof -
  from bget_hit_effect [OF w l, of pid] obtain t where
    g: "bget pid d bn s = Some (if lock (deref s c) = None then Returned c t else Blocked c t)"
    and rest: "wf t" "length (bufs t) = length (bufs s)" "disk t = disk s" "chain t = chain s"
      "\<forall>p. p \<noteq> c \<longrightarrow> body t p = body s p"
      "body t c = (body s c)\<lparr>refcnt := refcnt (deref s c) + 1,
            lock := (if lock (deref s c) = None then Some pid else lock (deref s c))\<rparr>"
    by blast
  from g r have bc: "b = c" "s' = t" by (auto split: if_splits)
  show "b = c" by fact
  show "chain s' = chain s" "wf s'" "length (bufs s') = length (bufs s)" "disk s' = disk s"
    unfolding bc by fact+
  show "body s' p = body s p" if "p \<noteq> b" for p using that rest(5) bc by simp
  show "body s' b = (body s b)\<lparr>refcnt := refcnt (deref s b) + 1,
            lock := (if lock (deref s b) = None then Some pid else lock (deref s b))\<rparr>"
    unfolding bc by fact
  show "bget pid d bn s = Some (Returned b s') \<longleftrightarrow> lock (deref s b) = None"
    unfolding bc g by simp
qed

lemma bget_total: "wf s \<Longrightarrow> \<exists>r. bget pid d bn s = Some r"
proof (cases "lookup s d bn")
  case None
  assume "wf s"
  from bget_miss_effect [OF this None, of pid] show ?thesis
    by (cases "lru s (scan_order s) None") auto
next
  case (Some c)
  assume "wf s"
  from bget_hit_effect [OF this Some, of pid] show ?thesis by blast
qed

lemma scan_from_start:
  assumes w: "wf s"
  shows "\<exists>prb pb s1. scan_loop 0 None None s = Some (prb, pb, s1) \<and>
           champ s prb = lru s (scan_order s) None"
proof -
  have "champ s None = lru s (concat (map (chain s) [0..<0])) None"
    by (simp add: champ_def)
  from scan_loop_wf [OF w _ this, of None] show ?thesis by auto
qed

lemma wf_scan_order_slots: "wf s \<Longrightarrow> set (scan_order s) = slots s"
  by (simp add: wf_def)

lemma lru_reclaimable:
  "lru s xs None = Some c \<Longrightarrow> c \<in> set xs \<and> refcnt (deref s c) = 0"
  using lru_first_least [where s = s and xs = xs] by (auto intro: nth_mem)

text \<open>
  C2. In a well-formed cache the eviction scan returns, and the champion it returns
  (the buffer after \<^verbatim>\<open>prev_replace_buf\<close>), if any, is a buffer of the pool
  with \<^verbatim>\<open>refcnt == 0\<close>. Hence a \<^verbatim>\<open>bget\<close> that misses rebinds a
  buffer whose \<^verbatim>\<open>refcnt\<close> was zero, and every buffer with a non-zero
  \<^verbatim>\<open>refcnt\<close> keeps its identity, its other fields and its chain.
\<close>

theorem C2_scan_never_picks_referenced:
  assumes "wf s"
  shows "(\<exists>prb pb s1. scan_loop 0 None None s = Some (prb, pb, s1) \<and>
            (\<forall>c. champ s prb = Some c \<longrightarrow> c \<in> slots s \<and> refcnt (deref s c) = 0)) \<and>
         (\<forall>pid d bn b s'. lookup s d bn = None \<and>
              (bget pid d bn s = Some (Returned b s') \<or> bget pid d bn s = Some (Blocked b s')) \<longrightarrow>
              refcnt (deref s b) = 0 \<and>
              (\<forall>p. refcnt (deref s p) \<noteq> 0 \<longrightarrow>
                   body s' p = body s p \<and>
                   (\<forall>k<NBUCKET. p \<in> set (chain s' k) \<longleftrightarrow> p \<in> set (chain s k))))"
proof (intro conjI allI impI)
  from scan_from_start [OF assms] obtain prb pb s1 where
    "scan_loop 0 None None s = Some (prb, pb, s1)" "champ s prb = lru s (scan_order s) None"
    by blast
  then show "\<exists>prb pb s1. scan_loop 0 None None s = Some (prb, pb, s1) \<and>
            (\<forall>c. champ s prb = Some c \<longrightarrow> c \<in> slots s \<and> refcnt (deref s c) = 0)"
    using lru_reclaimable [of s "scan_order s"] wf_scan_order_slots [OF assms] by auto
next
  fix pid d bn b s'
  assume a: "lookup s d bn = None \<and>
     (bget pid d bn s = Some (Returned b s') \<or> bget pid d bn s = Some (Blocked b s'))"
  note m = bget_miss_cases [OF assms conjunct1 [OF a] conjunct2 [OF a]]
  show "refcnt (deref s b) = 0" using lru_reclaimable [OF m(1)] by simp
  fix p assume p: "refcnt (deref s p) \<noteq> 0"
  with \<open>refcnt (deref s b) = 0\<close> have ne: "p \<noteq> b" by auto
  then show "body s' p = body s p" by (rule m(6))
  fix k assume k: "k < NBUCKET"
  from m(2) obtain k0 where k0: "k0 < NBUCKET" "b \<in> set (chain s k0)"
    "if k0 = hash d bn then chain s' = chain s
     else chain s' k0 = remove1 b (chain s k0) \<and> chain s' (hash d bn) = b # chain s (hash d bn) \<and>
          (\<forall>j<NBUCKET. j \<noteq> k0 \<longrightarrow> j \<noteq> hash d bn \<longrightarrow> chain s' j = chain s j)"
    by blast
  show "p \<in> set (chain s' k) \<longleftrightarrow> p \<in> set (chain s k)"
  proof (cases "k0 = hash d bn")
    case True
    with k0(3) show ?thesis by simp
  next
    case False
    with k0(3) k ne show ?thesis
      by (cases "k = k0"; cases "k = hash d bn") (auto simp: in_set_remove1)
  qed
qed

text \<open>
  C3. In a well-formed cache the eviction scan returns. When no buffer of the pool has
  \<^verbatim>\<open>refcnt == 0\<close> there is no champion. Otherwise the champion is the buffer at
  a position \<open>i\<close> of the scan order (bucket 0 to bucket 12, each chain from its
  head) that has \<^verbatim>\<open>refcnt == 0\<close>, whose timestamp is less than or equal to that
  of every buffer with \<^verbatim>\<open>refcnt == 0\<close>, and strictly less than that of every
  such buffer met before position \<open>i\<close>: among equal timestamps the one found first
  is kept. The scan order lists every buffer of the pool once, and the champion is the
  buffer a missing \<^verbatim>\<open>bget\<close> rebinds.
\<close>

theorem C3_scan_picks_first_least_recent:
  assumes "wf s"
  shows "\<exists>prb pb s1. scan_loop 0 None None s = Some (prb, pb, s1) \<and>
     (case champ s prb of
        None \<Rightarrow> (\<forall>p\<in>slots s. refcnt (deref s p) \<noteq> 0)
      | Some c \<Rightarrow> (\<exists>i<length (scan_order s). scan_order s ! i = c \<and> refcnt (deref s c) = 0 \<and>
           (\<forall>j<length (scan_order s). refcnt (deref s (scan_order s ! j)) = 0 \<longrightarrow>
                timestamp (deref s c) \<le> timestamp (deref s (scan_order s ! j))) \<and>
           (\<forall>j<i. refcnt (deref s (scan_order s ! j)) = 0 \<longrightarrow>
                timestamp (deref s c) < timestamp (deref s (scan_order s ! j))))) \<and>
     (\<forall>pid d bn b s'. lookup s d bn = None \<and>
          (bget pid d bn s = Some (Returned b s') \<or> bget pid d bn s = Some (Blocked b s')) \<longrightarrow>
          champ s prb = Some b) \<and>
     set (scan_order s) = slots s \<and> distinct (scan_order s)"
proof -
  from scan_from_start [OF assms] obtain prb pb s1 where
    sl: "scan_loop 0 None None s = Some (prb, pb, s1)"
    and c: "champ s prb = lru s (scan_order s) None"
    by blast
  have so: "set (scan_order s) = slots s" "distinct (scan_order s)"
    using assms by (simp_all add: wf_def)
  have a: "case champ s prb of
        None \<Rightarrow> (\<forall>p\<in>slots s. refcnt (deref s p) \<noteq> 0)
      | Some c \<Rightarrow> (\<exists>i<length (scan_order s). scan_order s ! i = c \<and> refcnt (deref s c) = 0 \<and>
           (\<forall>j<length (scan_order s). refcnt (deref s (scan_order s ! j)) = 0 \<longrightarrow>
                timestamp (deref s c) \<le> timestamp (deref s (scan_order s ! j))) \<and>
           (\<forall>j<i. refcnt (deref s (scan_order s ! j)) = 0 \<longrightarrow>
                timestamp (deref s c) < timestamp (deref s (scan_order s ! j))))"
    using lru_first_least [where s = s and xs = "scan_order s"] unfolding c so(1) .
  have b: "\<forall>pid d bn b s'. lookup s d bn = None \<and>
          (bget pid d bn s = Some (Returned b s') \<or> bget pid d bn s = Some (Blocked b s')) \<longrightarrow>
          champ s prb = Some b"
  proof (intro allI impI)
    fix pid d bn b s'
    assume h: "lookup s d bn = None \<and>
          (bget pid d bn s = Some (Returned b s') \<or> bget pid d bn s = Some (Blocked b s'))"
    from bget_miss_cases(1) [OF assms conjunct1 [OF h] conjunct2 [OF h]] c
    show "champ s prb = Some b" by simp
  qed
  from sl a b so show ?thesis by blast
qed

text \<open>
  C6. In a well-formed cache, a \<^verbatim>\<open>bget\<close> that misses ends in
  \<^verbatim>\<open>panic("bget: no buffers")\<close> exactly when no buffer of the pool has
  \<^verbatim>\<open>refcnt == 0\<close>: it neither retries nor returns.
\<close>

theorem C6_no_reclaimable_buffer_panics:
  assumes "wf s" and "lookup s d bn = None"
  shows "bget pid d bn s = Some (Panic ''bget: no buffers'') \<longleftrightarrow>
         (\<forall>p\<in>slots s. refcnt (deref s p) \<noteq> 0)"
proof (cases "lru s (scan_order s) None")
  case None
  with bget_miss_effect [OF assms, of pid] lru_None_iff [of s "scan_order s"]
    wf_scan_order_slots [OF assms(1)]
  show ?thesis by simp
next
  case (Some c)
  with bget_miss_effect [OF assms, of pid] lru_None_iff [of s "scan_order s"]
    wf_scan_order_slots [OF assms(1)]
  show ?thesis by (auto split: if_splits)
qed

lemma wf_one_chain:
  assumes "wf s" and "j < NBUCKET" and "k < NBUCKET" and "p \<in> set (chain s j)"
  shows "p \<in> set (chain s k) \<longleftrightarrow> k = j"
  using wf_disjoint [OF assms(1,2,3)] assms(4) by auto

text \<open>
  C4. After a \<^verbatim>\<open>bget\<close> that misses in a well-formed cache (it returns, or
  suspends in its final \<^verbatim>\<open>acquiresleep\<close>), the chosen buffer carries the
  requested device and block number, \<^verbatim>\<open>valid\<close> is 0, \<^verbatim>\<open>refcnt\<close>
  is 1, and the buffer is in the chain of the bucket the new identity hashes to and in
  no other chain. When it came from another bucket, it has been removed from that
  bucket's chain and put at the head of the target chain, and the other chains are as
  before; when it came from the target bucket, no chain has changed.
\<close>

theorem C4_miss_rebinds_into_target_bucket:
  assumes "wf s" and "lookup s d bn = None"
    and "bget pid d bn s = Some (Returned b s') \<or> bget pid d bn s = Some (Blocked b s')"
  shows "dev (deref s' b) = d \<and> blockno (deref s' b) = bn \<and>
         valid (deref s' b) = 0 \<and> refcnt (deref s' b) = 1 \<and>
         (\<forall>j<NBUCKET. b \<in> set (chain s' j) \<longleftrightarrow> j = hash d bn) \<and>
         (\<exists>k<NBUCKET. b \<in> set (chain s k) \<and>
            (if k = hash d bn then \<forall>j<NBUCKET. chain s' j = chain s j
             else chain s' k = remove1 b (chain s k) \<and>
                  chain s' (hash d bn) = b # chain s (hash d bn) \<and>
                  (\<forall>j<NBUCKET. j \<noteq> k \<longrightarrow> j \<noteq> hash d bn \<longrightarrow> chain s' j = chain s j)))"
proof -
  note m = bget_miss_cases [OF assms]
  from m(2) obtain k where k: "k < NBUCKET" "b \<in> set (chain s k)"
    "if k = hash d bn then chain s' = chain s
     else chain s' k = remove1 b (chain s k) \<and> chain s' (hash d bn) = b # chain s (hash d bn) \<and>
          (\<forall>j<NBUCKET. j \<noteq> k \<longrightarrow> j \<noteq> hash d bn \<longrightarrow> chain s' j = chain s j)"
    by blast
  have f: "dev (body s' b) = d" "blockno (body s' b) = bn" "valid (body s' b) = 0"
    "refcnt (body s' b) = 1"
    unfolding m(7) by simp_all
  have "b \<in> set (chain s' (hash d bn))" using k by (cases "k = hash d bn") auto
  then have one: "\<forall>j<NBUCKET. b \<in> set (chain s' j) \<longleftrightarrow> j = hash d bn"
    using wf_one_chain [OF m(3) hash_less] by blast
  have "if k = hash d bn then \<forall>j<NBUCKET. chain s' j = chain s j
             else chain s' k = remove1 b (chain s k) \<and>
                  chain s' (hash d bn) = b # chain s (hash d bn) \<and>
                  (\<forall>j<NBUCKET. j \<noteq> k \<longrightarrow> j \<noteq> hash d bn \<longrightarrow> chain s' j = chain s j)"
    using k(3) by (cases "k = hash d bn") simp_all
  with k(1,2) f one show ?thesis by (simp only: body_fields) blast
qed

subsection \<open>Examples for the eviction scan and the miss path\<close>

lemma returned_state_after:
  "returned r = Some c \<Longrightarrow> r = Some (Returned c (state_after s r))"
  by (auto simp: returned_def state_after_def split: option.splits outcome.splits)

lemma wf_state_after_bget: "wf s \<Longrightarrow> wf (state_after s (bget pid d bn s))"
proof -
  assume w: "wf s"
  from bget_total [OF w, of pid d bn] obtain r where r: "bget pid d bn s = Some r" by blast
  show ?thesis
  proof (cases r)
    case (Panic m)
    with r w show ?thesis by (simp add: state_after_def)
  next
    case (Blocked b s')
    with r have g: "bget pid d bn s = Some (Returned b s') \<or> bget pid d bn s = Some (Blocked b s')"
      by simp
    have "wf s'"
      using bget_miss_cases(3) [OF w _ g] bget_hit_cases(3) [OF w _ g]
      by (cases "lookup s d bn") auto
    with r Blocked show ?thesis by (simp add: state_after_def)
  next
    case (Returned b s')
    with r have g: "bget pid d bn s = Some (Returned b s') \<or> bget pid d bn s = Some (Blocked b s')"
      by simp
    have "wf s'"
      using bget_miss_cases(3) [OF w _ g] bget_hit_cases(3) [OF w _ g]
      by (cases "lookup s d bn") auto
    with r Returned show ?thesis by (simp add: state_after_def)
  qed
qed

lemma wf_brelse:
  assumes "wf s" and "holdingsleep pid b s" and "valid_ptr s b"
  shows "wf (state_after s (Some (brelse pid ticks b s)))"
proof -
  from brelse_effect [OF assms(2,3), of ticks] obtain s' where
    "brelse pid ticks b s = Returned () s'" "nexts s' = nexts s"
    "length (bufs s') = length (bufs s)" "length (hashtable s') = length (hashtable s)"
    by blast
  with assms(1) wf_cong [of s' s] show ?thesis by (simp add: state_after_def)
qed

lemma wf_boot30: "wf boot30"
  unfolding boot30_def using binit_wf by blast

lemma wf_boot2: "wf boot2"
  unfolding boot2_def using binit_wf by blast

lemma wf_held26: "wf held26"
  unfolding held26_def using wf_boot30 by (rule wf_state_after_bget)

lemma wf_released26: "wf released26"
  unfolding released26_def using wf_held26 held26_holding(1) held26_facts(1) by (rule wf_brelse)

lemma wf_full2: "wf full2"
  unfolding full2_def one2_def by (intro wf_state_after_bget wf_boot2)

lemma held26_miss:
  "lookup held26 1 6 = None" "returned (bget 1 1 6 held26) = Some (Slot 13)"
  "refcnt (deref held26 (Slot 13)) = 0"
  by code_simp+

theorem C2_scan_never_picks_referenced_witness:
  "wf held26 \<and> lookup held26 1 6 = None \<and>
   bget 1 1 6 held26 = Some (Returned (Slot 13) evict13) \<and>
   refcnt (deref held26 (Slot 13)) = 0 \<and>
   refcnt (deref held26 (Slot 26)) \<noteq> 0 \<and>
   body evict13 (Slot 26) = body held26 (Slot 26) \<and>
   (Slot 26 \<in> set (chain evict13 6) \<longleftrightarrow> Slot 26 \<in> set (chain held26 6))"
proof -
  have g: "bget 1 1 6 held26 = Some (Returned (Slot 13) evict13)"
    unfolding evict13_def using held26_miss(2) by (rule returned_state_after)
  have r: "refcnt (deref held26 (Slot 26)) \<noteq> 0" by (simp add: held26_facts)
  from C2_scan_never_picks_referenced [OF wf_held26] held26_miss(1) g
  have "refcnt (deref held26 (Slot 13)) = 0 \<and>
        (\<forall>p. refcnt (deref held26 p) \<noteq> 0 \<longrightarrow>
             body evict13 p = body held26 p \<and>
             (\<forall>k<NBUCKET. p \<in> set (chain evict13 k) \<longleftrightarrow> p \<in> set (chain held26 k)))"
    by blast
  with r have "refcnt (deref held26 (Slot 13)) = 0" "body evict13 (Slot 26) = body held26 (Slot 26)"
    "\<forall>k<NBUCKET. Slot 26 \<in> set (chain evict13 k) \<longleftrightarrow> Slot 26 \<in> set (chain held26 k)"
    by blast+
  moreover have "6 < NBUCKET" by (simp add: NBUCKET_def)
  ultimately show ?thesis using wf_held26 held26_miss(1) g r by blast
qed

lemma released26_facts:
  "scan_order released26 ! 0 = Slot 13" "0 < length (scan_order released26)"
  "refcnt (deref released26 (Slot 13)) = 0" "timestamp (deref released26 (Slot 13)) = 0"
  "timestamp (deref released26 (Slot 26)) = 9" "refcnt (deref released26 (Slot 26)) = 0"
  by code_simp+

theorem C3_scan_picks_first_least_recent_witness:
  "wf released26 \<and>
   refcnt (deref released26 (Slot 26)) = 0 \<and> timestamp (deref released26 (Slot 26)) = 9 \<and>
   refcnt (deref released26 (Slot 13)) = 0 \<and> timestamp (deref released26 (Slot 13)) = 0 \<and>
   scan_order released26 ! 0 = Slot 13 \<and>
   (\<exists>prb pb s1. scan_loop 0 None None released26 = Some (prb, pb, s1) \<and>
      champ released26 prb = Some (Slot 13))"
proof -
  let ?s = released26
  from C3_scan_picks_first_least_recent [OF wf_released26] obtain prb pb s1 where
    sl: "scan_loop 0 None None ?s = Some (prb, pb, s1)"
    and c: "case champ ?s prb of
        None \<Rightarrow> (\<forall>p\<in>slots ?s. refcnt (deref ?s p) \<noteq> 0)
      | Some c \<Rightarrow> (\<exists>i<length (scan_order ?s). scan_order ?s ! i = c \<and> refcnt (deref ?s c) = 0 \<and>
           (\<forall>j<length (scan_order ?s). refcnt (deref ?s (scan_order ?s ! j)) = 0 \<longrightarrow>
                timestamp (deref ?s c) \<le> timestamp (deref ?s (scan_order ?s ! j))) \<and>
           (\<forall>j<i. refcnt (deref ?s (scan_order ?s ! j)) = 0 \<longrightarrow>
                timestamp (deref ?s c) < timestamp (deref ?s (scan_order ?s ! j))))"
    and so: "set (scan_order ?s) = slots ?s"
    by blast
  have in13: "Slot 13 \<in> slots ?s"
    using nth_mem [OF released26_facts(2)] released26_facts(1) so by simp
  have "champ ?s prb = Some (Slot 13)"
  proof (cases "champ ?s prb")
    case None
    with c in13 released26_facts(3) show ?thesis by auto
  next
    case (Some x)
    with c obtain i where i: "i < length (scan_order ?s)" "scan_order ?s ! i = x"
      and lt: "\<forall>j<i. refcnt (deref ?s (scan_order ?s ! j)) = 0 \<longrightarrow>
                timestamp (deref ?s x) < timestamp (deref ?s (scan_order ?s ! j))"
      by auto
    have "i = 0"
    proof (rule ccontr)
      assume "i \<noteq> 0"
      then have "0 < i" by simp
      with lt released26_facts(1,3,4) have "timestamp (deref ?s x) < 0" by auto
      then show False by simp
    qed
    with i released26_facts(1) Some show ?thesis by simp
  qed
  with sl wf_released26 released26_facts show ?thesis by blast
qed

lemma full2_facts:
  "lookup full2 1 3 = None" "length (bufs full2) = 2"
  "refcnt (deref full2 (Slot 0)) \<noteq> 0" "refcnt (deref full2 (Slot 1)) \<noteq> 0"
  by code_simp+

theorem C6_no_reclaimable_buffer_panics_witness:
  "wf full2 \<and> lookup full2 1 3 = None \<and> length (bufs full2) = 2 \<and>
   refcnt (deref full2 (Slot 0)) \<noteq> 0 \<and> refcnt (deref full2 (Slot 1)) \<noteq> 0 \<and>
   bget 1 1 3 full2 = Some (Panic ''bget: no buffers'')"
proof -
  have "\<forall>p\<in>slots full2. refcnt (deref full2 p) \<noteq> 0"
    using full2_facts(3,4) by (auto simp: slots_def full2_facts(2) less_Suc_eq numeral_2_eq_2)
  with C6_no_reclaimable_buffer_panics [OF wf_full2 full2_facts(1), of 1]
  have "bget 1 1 3 full2 = Some (Panic ''bget: no buffers'')" by simp
  with wf_full2 full2_facts show ?thesis by simp
qed

lemma boot30_miss:
  "lookup boot30 1 5 = None" "returned (bget 1 1 5 boot30) = Some (Slot 26)"
  "lookup boot30 0 13 = None" "returned (bget 1 0 13 boot30) = Some (Slot 26)"
  "hash 1 5 = 6" "hash 0 13 = 0" "Slot 26 \<in> set (chain boot30 0)"
  "chain boot30 0 = [Slot 26, Slot 13, Slot 0]" "chain boot30 6 = [Slot 19, Slot 6]"
  by code_simp+

theorem C4_miss_rebinds_into_target_bucket_witness:
  "wf boot30 \<and> lookup boot30 1 5 = None \<and>
   bget 1 1 5 boot30 = Some (Returned (Slot 26) held26) \<and>
   dev (deref held26 (Slot 26)) = 1 \<and> blockno (deref held26 (Slot 26)) = 5 \<and>
   valid (deref held26 (Slot 26)) = 0 \<and> refcnt (deref held26 (Slot 26)) = 1 \<and>
   Slot 26 \<in> set (chain held26 6) \<and> Slot 26 \<notin> set (chain held26 0) \<and>
   chain held26 0 = [Slot 13, Slot 0] \<and> chain held26 6 = [Slot 26, Slot 19, Slot 6] \<and>
   lookup boot30 0 13 = None \<and>
   bget 1 0 13 boot30 = Some (Returned (Slot 26) inplace26) \<and>
   dev (deref inplace26 (Slot 26)) = 0 \<and> blockno (deref inplace26 (Slot 26)) = 13 \<and>
   chain inplace26 0 = [Slot 26, Slot 13, Slot 0]"
proof -
  have n: "0 < NBUCKET" "6 < NBUCKET" by (simp_all add: NBUCKET_def)
  have g1: "bget 1 1 5 boot30 = Some (Returned (Slot 26) held26)"
    unfolding held26_def using boot30_miss(2) by (rule returned_state_after)
  have g2: "bget 1 0 13 boot30 = Some (Returned (Slot 26) inplace26)"
    unfolding inplace26_def using boot30_miss(4) by (rule returned_state_after)
  from C4_miss_rebinds_into_target_bucket [OF wf_boot30 boot30_miss(1) disjI1 [OF g1]]
  have a: "dev (deref held26 (Slot 26)) = 1" "blockno (deref held26 (Slot 26)) = 5"
    "valid (deref held26 (Slot 26)) = 0" "refcnt (deref held26 (Slot 26)) = 1"
    and one: "\<forall>j<NBUCKET. Slot 26 \<in> set (chain held26 j) \<longleftrightarrow> j = hash 1 5"
    and k: "\<exists>k<NBUCKET. Slot 26 \<in> set (chain boot30 k) \<and>
            (if k = hash 1 5 then \<forall>j<NBUCKET. chain held26 j = chain boot30 j
             else chain held26 k = remove1 (Slot 26) (chain boot30 k) \<and>
                  chain held26 (hash 1 5) = Slot 26 # chain boot30 (hash 1 5) \<and>
                  (\<forall>j<NBUCKET. j \<noteq> k \<longrightarrow> j \<noteq> hash 1 5 \<longrightarrow> chain held26 j = chain boot30 j))"
    by blast+
  from one n have m: "Slot 26 \<in> set (chain held26 6)" "Slot 26 \<notin> set (chain held26 0)"
    by (auto simp: boot30_miss(5))
  from k obtain k where k: "k < NBUCKET" "Slot 26 \<in> set (chain boot30 k)"
    "if k = hash 1 5 then \<forall>j<NBUCKET. chain held26 j = chain boot30 j
             else chain held26 k = remove1 (Slot 26) (chain boot30 k) \<and>
                  chain held26 (hash 1 5) = Slot 26 # chain boot30 (hash 1 5) \<and>
                  (\<forall>j<NBUCKET. j \<noteq> k \<longrightarrow> j \<noteq> hash 1 5 \<longrightarrow> chain held26 j = chain boot30 j)"
    by blast
  have k0: "k = 0" using wf_one_chain [OF wf_boot30 n(1) k(1) boot30_miss(7)] k(2) by simp
  with k(3) have c: "chain held26 0 = [Slot 13, Slot 0]" "chain held26 6 = [Slot 26, Slot 19, Slot 6]"
    by (simp_all add: boot30_miss)
  from C4_miss_rebinds_into_target_bucket [OF wf_boot30 boot30_miss(3) disjI1 [OF g2]]
  have b: "dev (deref inplace26 (Slot 26)) = 0" "blockno (deref inplace26 (Slot 26)) = 13"
    and k': "\<exists>k<NBUCKET. Slot 26 \<in> set (chain boot30 k) \<and>
            (if k = hash 0 13 then \<forall>j<NBUCKET. chain inplace26 j = chain boot30 j
             else chain inplace26 k = remove1 (Slot 26) (chain boot30 k) \<and>
                  chain inplace26 (hash 0 13) = Slot 26 # chain boot30 (hash 0 13) \<and>
                  (\<forall>j<NBUCKET. j \<noteq> k \<longrightarrow> j \<noteq> hash 0 13 \<longrightarrow> chain inplace26 j = chain boot30 j))"
    by blast+
  from k' obtain k' where k': "k' < NBUCKET" "Slot 26 \<in> set (chain boot30 k')"
    "if k' = hash 0 13 then \<forall>j<NBUCKET. chain inplace26 j = chain boot30 j
             else chain inplace26 k' = remove1 (Slot 26) (chain boot30 k') \<and>
                  chain inplace26 (hash 0 13) = Slot 26 # chain boot30 (hash 0 13) \<and>
                  (\<forall>j<NBUCKET. j \<noteq> k' \<longrightarrow> j \<noteq> hash 0 13 \<longrightarrow> chain inplace26 j = chain boot30 j)"
    by blast
  have "k' = 0" using wf_one_chain [OF wf_boot30 n(1) k'(1) boot30_miss(7)] k'(2) by simp
  with k'(3) n(1) have d: "chain inplace26 0 = [Slot 26, Slot 13, Slot 0]"
    by (simp add: boot30_miss)
  from wf_boot30 boot30_miss(1,3) g1 g2 a m c b d show ?thesis by blast
qed

subsection \<open>Steps that leave chains and identities alone\<close>

lemma deref_disk_update [simp]: "deref (s\<lparr>disk := x\<rparr>) = deref s"
  by (rule ext) (simp add: deref_def split: ptr.splits)

lemma nexts_disk_update [simp]: "nexts (s\<lparr>disk := x\<rparr>) = nexts s"
  by (rule ext) (simp add: nexts_def)

lemma quiet_facts:
  assumes "quiet s s'"
  shows "wf s' = wf s" and "chain s' = chain s" and "slots s' = slots s"
    and "ident s' = ident s" and "home s' = home s" and "lookup s' = lookup s"
    and "bound_home s' = bound_home s" and "unique_ident s' = unique_ident s"
proof -
  from assms have n: "nexts s' = nexts s" and l: "length (bufs s') = length (bufs s)"
    "length (hashtable s') = length (hashtable s)"
    and d: "\<And>p. dev (deref s' p) = dev (deref s p)" "\<And>p. blockno (deref s' p) = blockno (deref s p)"
    by (simp_all add: quiet_def)
  show w: "wf s' = wf s" using n l by (rule wf_cong)
  show c: "chain s' = chain s" using n l(1) by (rule chain_cong)
  show sl: "slots s' = slots s" by (simp add: slots_def l)
  show i: "ident s' = ident s" by (rule ext) (simp add: ident_def d)
  show h: "home s' = home s" by (rule ext) (simp add: home_def d)
  show "lookup s' = lookup s" by (intro ext) (simp add: lookup_def d c)
  show "bound_home s' = bound_home s" by (simp add: bound_home_def sl i h c)
  show "unique_ident s' = unique_ident s" by (simp add: unique_ident_def sl i)
qed

lemma quiet_held_found:
  assumes q: "quiet s s'" and h: "held_found s"
    and r: "\<And>p. p \<in> slots s \<Longrightarrow> referenced s' p \<Longrightarrow> referenced s p"
  shows "held_found s'"
proof -
  from q have d: "\<And>p. dev (deref s' p) = dev (deref s p)" "\<And>p. blockno (deref s' p) = blockno (deref s p)"
    by (simp_all add: quiet_def)
  show ?thesis
    unfolding held_found_def quiet_facts(3,6) [OF q] d
    using h r by (auto simp: held_found_def)
qed

lemma quiet_acquiresleep:
  assumes v: "valid_ptr s b" and a: "acquiresleep pid b s = Returned c s'"
  shows "quiet s s'" and "\<And>p. refcnt (deref s' p) = refcnt (deref s p)"
proof -
  from acquiresleep_effect [OF v, of pid] a have
    e: "deref s' b = (deref s b)\<lparr>lock := (if lock (deref s b) = None then Some pid else lock (deref s b))\<rparr>"
      "\<forall>p. p \<noteq> b \<longrightarrow> deref s' p = deref s p" "nexts s' = nexts s"
      "length (bufs s') = length (bufs s)" "length (hashtable s') = length (hashtable s)"
    by (auto split: if_splits)
  have f: "dev (deref s' p) = dev (deref s p) \<and> blockno (deref s' p) = blockno (deref s p) \<and>
        refcnt (deref s' p) = refcnt (deref s p)" for p
    using e(1) e(2) by (cases "p = b") simp_all
  then show "quiet s s'" unfolding quiet_def using e(3,4,5) by simp
  show "refcnt (deref s' p) = refcnt (deref s p)" for p using f by simp
qed

lemma quiet_modify:
  assumes "\<And>x. nxt (f x) = nxt x" "\<And>x. dev (f x) = dev x" "\<And>x. blockno (f x) = blockno x"
  shows "quiet s (modify p f s)"
  using assms by (simp add: quiet_def nexts_modify_same deref_modify)

lemma quiet_log_event [simp]: "quiet s (log_event e t) = quiet s t"
  by (simp add: quiet_def)

lemma quiet_refl [simp]: "quiet s s"
  by (simp add: quiet_def)

lemma quiet_trans: "quiet s t \<Longrightarrow> quiet t u \<Longrightarrow> quiet s u"
  by (simp add: quiet_def)

lemma quiet_virtio_disk_rw:
  "quiet s (virtio_disk_rw b w s) \<and> (\<forall>p. refcnt (deref (virtio_disk_rw b w s) p) = refcnt (deref s p))"
  by (simp add: virtio_disk_rw_def Let_def quiet_modify deref_modify) (simp add: quiet_def)

lemma quiet_bread_load:
  "quiet s (bread_load b s) \<and> (\<forall>p. refcnt (deref (bread_load b s) p) = refcnt (deref s p))"
proof (cases "valid (deref s b) = 0")
  case True
  let ?t = "virtio_disk_rw b False s"
  have "quiet ?t (modify b (\<lambda>x. x\<lparr>valid := 1\<rparr>) ?t)" by (rule quiet_modify) simp_all
  with quiet_virtio_disk_rw [of s b False] have "quiet s (bread_load b s)"
    using True by (auto simp: bread_load_def intro: quiet_trans)
  moreover have "\<forall>p. refcnt (deref (bread_load b s) p) = refcnt (deref s p)"
    using quiet_virtio_disk_rw [of s b False] True by (simp add: bread_load_def deref_modify)
  ultimately show ?thesis by simp
next
  case False
  then show ?thesis by (simp add: bread_load_def)
qed

lemma quiet_bwrite:
  "bwrite pid b s = Returned u s' \<Longrightarrow> quiet s s' \<and> (\<forall>p. refcnt (deref s' p) = refcnt (deref s p))"
  using quiet_virtio_disk_rw [of s b True] by (auto simp: bwrite_def split: if_splits)

lemma quiet_brelse:
  assumes "valid_ptr s b" and "brelse pid ticks b s = Returned u s'"
  shows "quiet s s'" and "\<And>p. p \<noteq> b \<Longrightarrow> refcnt (deref s' p) = refcnt (deref s p)"
proof -
  from assms(2) have h: "holdingsleep pid b s" by (auto simp: brelse_def split: if_splits)
  from brelse_effect [OF h assms(1), of ticks] assms(2) have
    e: "deref s' b = (deref s b)\<lparr>lock := None, refcnt := refcnt (deref s b) - 1,
              timestamp := (if refcnt (deref s b) - 1 = 0 then ticks else timestamp (deref s b))\<rparr>"
      "\<forall>p. p \<noteq> b \<longrightarrow> deref s' p = deref s p" "nexts s' = nexts s"
      "length (bufs s') = length (bufs s)" "length (hashtable s') = length (hashtable s)"
    by auto
  have "dev (deref s' p) = dev (deref s p) \<and> blockno (deref s' p) = blockno (deref s p)" for p
    using e(1) e(2) by (cases "p = b") simp_all
  then show "quiet s s'" unfolding quiet_def using e(3,4,5) by simp
  show "refcnt (deref s' p) = refcnt (deref s p)" if "p \<noteq> b" for p using e(2) that by simp
qed

lemma quiet_bpin:
  assumes "valid_ptr s b"
  shows "quiet s (bpin b s)" and "quiet s (bunpin b s)"
    and "\<And>p. p \<noteq> b \<Longrightarrow> refcnt (deref (bpin b s) p) = refcnt (deref s p)"
    and "\<And>p. p \<noteq> b \<Longrightarrow> refcnt (deref (bunpin b s) p) = refcnt (deref s p)"
proof -
  note e = pin_effect [OF assms]
  have "dev (deref (bpin b s) p) = dev (deref s p) \<and> blockno (deref (bpin b s) p) = blockno (deref s p)" for p
    using e(1) e(3) [of p] by (cases "p = b") simp_all
  then show "quiet s (bpin b s)" unfolding quiet_def using e(5,7,9) by simp
  have "dev (deref (bunpin b s) p) = dev (deref s p) \<and> blockno (deref (bunpin b s) p) = blockno (deref s p)" for p
    using e(2) e(4) [of p] by (cases "p = b") simp_all
  then show "quiet s (bunpin b s)" unfolding quiet_def using e(6,8,10) by simp
  show "refcnt (deref (bpin b s) p) = refcnt (deref s p)" if "p \<noteq> b" for p using e(3) that by simp
  show "refcnt (deref (bunpin b s) p) = refcnt (deref s p)" if "p \<noteq> b" for p using e(4) that by simp
qed

subsection \<open>What a lookup finds after bget\<close>

lemma find_stable:
  "find P xs = Some p \<Longrightarrow> P' p \<Longrightarrow> (\<And>x. x \<in> set xs \<Longrightarrow> P' x \<Longrightarrow> P x) \<Longrightarrow>
   find P' xs = Some p"
proof (induction xs)
  case Nil
  then show ?case by simp
next
  case (Cons x xs)
  show ?case
  proof (cases "P x")
    case True
    with Cons.prems show ?thesis by simp
  next
    case False
    with Cons.prems(3) [of x] have "\<not> P' x" by auto
    moreover from False Cons.prems(1) have "find P xs = Some p" by simp
    ultimately show ?thesis using Cons.IH Cons.prems(2,3) by simp
  qed
qed

lemma find_remove1:
  "find P xs = Some p \<Longrightarrow> p \<noteq> b \<Longrightarrow> find P (remove1 b xs) = Some p"
  by (induction xs) (auto split: if_splits)

lemma find_only:
  "b \<in> set xs \<Longrightarrow> P b \<Longrightarrow> (\<And>x. x \<in> set xs \<Longrightarrow> x \<noteq> b \<Longrightarrow> \<not> P x) \<Longrightarrow>
   find P xs = Some b"
  by (induction xs) auto

lemma body_ident: "body s' p = body s p \<Longrightarrow> ident s' p = ident s p \<and> home s' p = home s p \<and>
    refcnt (deref s' p) = refcnt (deref s p)"
proof -
  assume b: "body s' p = body s p"
  have "dev (body s' p) = dev (body s p)" "blockno (body s' p) = blockno (body s p)"
    "refcnt (body s' p) = refcnt (body s p)"
    by (simp_all only: b)
  then show ?thesis by (simp add: ident_def home_def)
qed


lemma bget_returns_slot:
  assumes w: "wf s"
    and r: "bget pid d bn s = Some (Returned b s') \<or> bget pid d bn s = Some (Blocked b s')"
  shows "b \<in> slots s" and "b \<in> set (chain s' (hash d bn))"
    and "dev (deref s' b) = d" and "blockno (deref s' b) = bn"
    and "wf s'" and "slots s' = slots s"
proof -
  have "b \<in> slots s \<and> b \<in> set (chain s' (hash d bn)) \<and> dev (deref s' b) = d \<and>
        blockno (deref s' b) = bn \<and> wf s' \<and> slots s' = slots s"
  proof (cases "lookup s d bn")
    case None
    note m = bget_miss_cases [OF w None r]
    from m(2) obtain k where k: "k < NBUCKET" "b \<in> set (chain s k)"
      "if k = hash d bn then chain s' = chain s
       else chain s' k = remove1 b (chain s k) \<and> chain s' (hash d bn) = b # chain s (hash d bn) \<and>
            (\<forall>j<NBUCKET. j \<noteq> k \<longrightarrow> j \<noteq> hash d bn \<longrightarrow> chain s' j = chain s j)"
      by blast
    have "b \<in> slots s" using w k(1,2) by (rule wf_chain_slots)
    moreover have "b \<in> set (chain s' (hash d bn))" using k by (cases "k = hash d bn") auto
    moreover have "dev (body s' b) = d" "blockno (body s' b) = bn" unfolding m(7) by simp_all
    moreover have "slots s' = slots s" by (simp add: slots_def m(4))
    ultimately show ?thesis using m(3) by simp
  next
    case (Some c)
    note m = bget_hit_cases [OF w Some r]
    note l = lookup_Some [OF Some]
    have "dev (body s' b) = d" "blockno (body s' b) = bn"
      unfolding m(7) using l m(1) by simp_all
    moreover have "b \<in> slots s" using wf_chain_slots [OF w hash_less] l m(1) by blast
    moreover have "b \<in> set (chain s' (hash d bn))" using l m(1,2) by simp
    moreover have "slots s' = slots s" by (simp add: slots_def m(4))
    ultimately show ?thesis using m(3) by simp
  qed
  then show "b \<in> slots s" "b \<in> set (chain s' (hash d bn))" "dev (deref s' b) = d"
    "blockno (deref s' b) = bn" "wf s'" "slots s' = slots s"
    by simp_all
qed

lemma bget_miss_member:
  assumes w: "wf s" and l: "lookup s d bn = None"
    and r: "bget pid d bn s = Some (Returned b s') \<or> bget pid d bn s = Some (Blocked b s')"
    and p: "p \<noteq> b" and j: "j < NBUCKET"
  shows "p \<in> set (chain s' j) \<longleftrightarrow> p \<in> set (chain s j)"
proof -
  from bget_miss_cases(2) [OF w l r] obtain k where k: "k < NBUCKET" "b \<in> set (chain s k)"
    "if k = hash d bn then chain s' = chain s
     else chain s' k = remove1 b (chain s k) \<and> chain s' (hash d bn) = b # chain s (hash d bn) \<and>
          (\<forall>j<NBUCKET. j \<noteq> k \<longrightarrow> j \<noteq> hash d bn \<longrightarrow> chain s' j = chain s j)"
    by blast
  show ?thesis
  proof (cases "k = hash d bn")
    case True
    with k(3) show ?thesis by simp
  next
    case False
    with k(3) j p show ?thesis
      by (cases "j = k"; cases "j = hash d bn") (auto simp: in_set_remove1)
  qed
qed

lemma bget_miss_lookup_other:
  assumes w: "wf s" and l: "lookup s d bn = None"
    and r: "bget pid d bn s = Some (Returned b s') \<or> bget pid d bn s = Some (Blocked b s')"
    and p: "p \<noteq> b" and f: "lookup s d' bn' = Some p"
  shows "lookup s' d' bn' = Some p"
proof -
  note m = bget_miss_cases [OF w l r]
  let ?P = "\<lambda>q. dev (deref s q) = d' \<and> blockno (deref s q) = bn'"
  let ?P' = "\<lambda>q. dev (deref s' q) = d' \<and> blockno (deref s' q) = bn'"
  let ?h = "hash d' bn'"
  have ne: "(d', bn') \<noteq> (d, bn)" using f l by auto
  have same: "?P' x = ?P x" if "x \<noteq> b" for x
    using body_ident [OF m(6) [OF that]] by (auto simp: ident_def)
  have "dev (body s' b) = d" "blockno (body s' b) = bn" unfolding m(7) by simp_all
  then have nb: "\<not> ?P' b" using ne by auto
  have fp: "find ?P (chain s ?h) = Some p" using f by (simp add: lookup_def)
  then have "?P p" by (auto simp: find_Some_iff)
  then have "?P' p" using same [OF p] by simp
  have imp: "?P x" if "?P' x" for x
    using that same [of x] nb by (cases "x = b") auto
  from fp \<open>?P' p\<close> have fp': "find ?P' (chain s ?h) = Some p"
    by (rule find_stable) (rule imp)
  from m(2) obtain k where k: "k < NBUCKET" "b \<in> set (chain s k)"
    "if k = hash d bn then chain s' = chain s
     else chain s' k = remove1 b (chain s k) \<and> chain s' (hash d bn) = b # chain s (hash d bn) \<and>
          (\<forall>j<NBUCKET. j \<noteq> k \<longrightarrow> j \<noteq> hash d bn \<longrightarrow> chain s' j = chain s j)"
    by blast
  have "find ?P' (chain s' ?h) = Some p"
  proof (cases "k = hash d bn")
    case True
    with k(3) fp' show ?thesis by simp
  next
    case False
    consider "?h = k" | "?h = hash d bn" | "?h \<noteq> k" "?h \<noteq> hash d bn" by blast
    then show ?thesis
    proof cases
      case 1
      with k(3) False find_remove1 [OF fp' p] show ?thesis by simp
    next
      case 2
      with k(3) False have "chain s' ?h = b # chain s ?h" by simp
      with nb fp' show ?thesis by auto
    next
      case 3
      with k(3) False fp' hash_less [of d' bn'] show ?thesis by simp
    qed
  qed
  then show ?thesis by (simp add: lookup_def)
qed

lemma bget_miss_lookup_new:
  assumes w: "wf s" and l: "lookup s d bn = None"
    and r: "bget pid d bn s = Some (Returned b s') \<or> bget pid d bn s = Some (Blocked b s')"
  shows "lookup s' d bn = Some b"
proof -
  note m = bget_miss_cases [OF w l r]
  note t = bget_returns_slot [OF w r]
  let ?P' = "\<lambda>q. dev (deref s' q) = d \<and> blockno (deref s' q) = bn"
  have "\<not> ?P' x" if x: "x \<in> set (chain s' (hash d bn))" "x \<noteq> b" for x
  proof -
    from x bget_miss_member [OF w l r x(2) hash_less] have "x \<in> set (chain s (hash d bn))" by simp
    from lookup_None [OF l this] body_ident [OF m(6) [OF x(2)]] show ?thesis
      by (auto simp: ident_def)
  qed
  with t(2,3,4) have "find ?P' (chain s' (hash d bn)) = Some b"
    by (intro find_only) auto
  then show ?thesis by (simp add: lookup_def)
qed

lemma bget_keeps_bound_unique:
  assumes w: "wf s" and bh: "bound_home s" and ui: "unique_ident s"
    and r: "bget pid d bn s = Some (Returned b s') \<or> bget pid d bn s = Some (Blocked b s')"
  shows "bound_home s' \<and> unique_ident s'"
proof (cases "lookup s d bn")
  case (Some c)
  note m = bget_hit_cases [OF w Some r]
  have "dev (body s' b) = dev (body s b)" "blockno (body s' b) = blockno (body s b)"
    unfolding m(7) by simp_all
  then have i: "ident s' p = ident s p \<and> home s' p = home s p" for p
    using body_ident [OF m(6), of p] by (cases "p = b") (simp_all add: ident_def home_def)
  have sl: "slots s' = slots s" by (simp add: slots_def m(4))
  show ?thesis using bh ui by (simp add: bound_home_def unique_ident_def sl i m(2))
next
  case None
  note m = bget_miss_cases [OF w None r]
  note t = bget_returns_slot [OF w r]
  have ib: "ident s' b = (d, bn)" "home s' b = hash d bn"
    using t(3,4) by (simp_all add: ident_def home_def)
  have io: "ident s' p = ident s p" "home s' p = home s p" if "p \<noteq> b" for p
    using body_ident [OF m(6) [OF that]] by simp_all
  have clash: False if q: "q \<in> slots s" "q \<noteq> b" "ident s q = (d, bn)" "(d, bn) \<noteq> (0, 0)" for q
  proof -
    from bh q have "q \<in> set (chain s (home s q))" by (auto simp: bound_home_def)
    moreover from q(3) have "home s q = hash d bn" "dev (deref s q) = d" "blockno (deref s q) = bn"
      by (simp_all add: ident_def home_def)
    ultimately show False using lookup_None [OF None, of q] by simp
  qed
  have "bound_home s'"
    unfolding bound_home_def
  proof (intro ballI impI)
    fix p assume p: "p \<in> slots s'" "ident s' p \<noteq> (0, 0)"
    show "p \<in> set (chain s' (home s' p))"
    proof (cases "p = b")
      case True
      with t(2) ib show ?thesis by simp
    next
      case False
      with p bh t(6) io have "p \<in> set (chain s (home s p))" by (auto simp: bound_home_def)
      moreover have "home s p < NBUCKET" by (simp add: home_def)
      ultimately show ?thesis using bget_miss_member [OF w None r False] io(2) [OF False] by simp
    qed
  qed
  moreover have "unique_ident s'"
    unfolding unique_ident_def
  proof (intro ballI impI)
    fix p q assume a: "p \<in> slots s'" "q \<in> slots s'" "ident s' p = ident s' q \<and> ident s' p \<noteq> (0, 0)"
    show "p = q"
    proof (cases "p = b"; cases "q = b")
      assume c: "p = b" "q \<noteq> b"
      with a ib io(1) [of q] have "ident s q = (d, bn)" "(d, bn) \<noteq> (0, 0)" by auto
      with clash [of q] a(2) t(6) c(2) show ?thesis by simp
    next
      assume c: "p \<noteq> b" "q = b"
      with a ib io(1) [of p] have "ident s p = (d, bn)" "(d, bn) \<noteq> (0, 0)" by auto
      with clash [of p] a(1) t(6) c(1) show ?thesis by simp
    next
      assume "p \<noteq> b" "q \<noteq> b"
      with a io t(6) ui show ?thesis by (auto simp: unique_ident_def)
    qed simp
  qed
  ultimately show ?thesis by simp
qed

lemma bget_keeps_held_found:
  assumes w: "wf s" and hf: "held_found s"
    and r: "bget pid d bn s = Some (Returned b s') \<or> bget pid d bn s = Some (Blocked b s')"
  shows "held_found s'"
proof (cases "lookup s d bn")
  case (Some c)
  note m = bget_hit_cases [OF w Some r]
  note l = lookup_Some [OF Some]
  have "dev (body s' b) = dev (body s b)" "blockno (body s' b) = blockno (body s b)"
    unfolding m(7) by simp_all
  then have i: "dev (deref s' p) = dev (deref s p) \<and> blockno (deref s' p) = blockno (deref s p)" for p
    using body_ident [OF m(6), of p] by (cases "p = b") (auto simp: ident_def)
  have sl: "slots s' = slots s" by (simp add: slots_def m(4))
  have lk: "lookup s' = lookup s" by (intro ext) (simp add: lookup_def i m(2))
  show ?thesis
    unfolding held_found_def
  proof (intro ballI impI)
    fix p assume p: "p \<in> slots s'" "referenced s' p"
    show "lookup s' (dev (deref s' p)) (blockno (deref s' p)) = Some p"
    proof (cases "p = b")
      case True
      with Some l m(1) show ?thesis by (simp add: lk i)
    next
      case False
      with body_ident [OF m(6) [OF False]] p have "referenced s p" by (simp add: referenced_def)
      with hf p sl show ?thesis by (simp add: held_found_def lk i)
    qed
  qed
next
  case None
  note m = bget_miss_cases [OF w None r]
  note t = bget_returns_slot [OF w r]
  show ?thesis
    unfolding held_found_def
  proof (intro ballI impI)
    fix p assume p: "p \<in> slots s'" "referenced s' p"
    show "lookup s' (dev (deref s' p)) (blockno (deref s' p)) = Some p"
    proof (cases "p = b")
      case True
      with bget_miss_lookup_new [OF w None r] t(3,4) show ?thesis by simp
    next
      case False
      note bi = body_ident [OF m(6) [OF False]]
      from bi p have "referenced s p" by (simp add: referenced_def)
      with hf p t(6) have "lookup s (dev (deref s p)) (blockno (deref s p)) = Some p"
        by (simp add: held_found_def)
      from bget_miss_lookup_other [OF w None r False this] bi show ?thesis
        by (simp add: ident_def)
    qed
  qed
qed

subsection \<open>Every run keeps the cache well-formed\<close>

lemma Slot_valid: "i < length (bufs s) \<Longrightarrow> valid_ptr s (Slot i)"
  by (simp add: valid_ptr_def)

lemma run_invariants: "run held s \<Longrightarrow> wf s \<and> bound_home s \<and> unique_ident s"
proof (induction rule: run.induct)
  case (boot n bsize dsk)
  let ?s = "binit (bcache0 n bsize dsk)"
  from binit_wf [of n bsize dsk] have w: "wf ?s"
    and z: "\<forall>p\<in>slots ?s. ident ?s p = (0, 0)"
    by (simp_all add: ident_def)
  from z have "bound_home ?s" "unique_ident ?s" by (simp_all add: bound_home_def unique_ident_def)
  with w show ?case by simp
next
  case (bget_returns s pid d bn b s')
  then have r: "bget pid d bn s = Some (Returned b s') \<or> bget pid d bn s = Some (Blocked b s')"
    by simp
  from bget_returns.IH bget_returns_slot(5) [OF _ r] bget_keeps_bound_unique [OF _ _ _ r]
  show ?case by blast
next
  case (bget_blocks s pid d bn b s')
  then have r: "bget pid d bn s = Some (Returned b s') \<or> bget pid d bn s = Some (Blocked b s')"
    by simp
  from bget_blocks.IH bget_returns_slot(5) [OF _ r] bget_keeps_bound_unique [OF _ _ _ r]
  show ?case by blast
next
  case (resumes s i pid b s')
  from quiet_facts(1,7,8) [OF quiet_acquiresleep(1) [OF Slot_valid [OF resumes.hyps(2)] resumes.hyps(3)]]
    resumes.IH
  show ?case by simp
next
  case (loads s i)
  from quiet_facts(1,7,8) [of s "bread_load (Slot i) s"] quiet_bread_load [of s "Slot i"] loads.IH
  show ?case by simp
next
  case (payload s i bytes)
  have "quiet s (modify (Slot i) (\<lambda>x. x\<lparr>data := bytes\<rparr>) s)" by (rule quiet_modify) simp_all
  from quiet_facts(1,7,8) [OF this] payload.IH show ?case by simp
next
  case (bwrite s i pid u s')
  from quiet_bwrite [OF bwrite.hyps(3)] have "quiet s s'" by simp
  from quiet_facts(1,7,8) [OF this] bwrite.IH show ?case by simp
next
  case (brelse s i pid ticks u s')
  from quiet_facts(1,7,8) [OF quiet_brelse(1) [OF Slot_valid [OF brelse.hyps(2)] brelse.hyps(4)]]
    brelse.IH
  show ?case by simp
next
  case (bpin s i)
  from quiet_facts(1,7,8) [OF quiet_bpin(1) [OF Slot_valid [OF bpin.hyps(2)]]] bpin.IH
  show ?case by simp
next
  case (bunpin s i)
  from quiet_facts(1,7,8) [OF quiet_bpin(2) [OF Slot_valid [OF bunpin.hyps(2)]]] bunpin.IH
  show ?case by simp
qed

lemma run_held_found: "run referenced s \<Longrightarrow> held_found s"
proof (induction rule: run.induct)
  case (boot n bsize dsk)
  from binit_wf [of n bsize dsk] show ?case by (simp add: held_found_def referenced_def)
next
  case (bget_returns s pid d bn b s')
  then have r: "bget pid d bn s = Some (Returned b s') \<or> bget pid d bn s = Some (Blocked b s')"
    by simp
  from run_invariants [OF bget_returns.hyps(1)] have "wf s" by simp
  from bget_keeps_held_found [OF this bget_returns.IH r] show ?case .
next
  case (bget_blocks s pid d bn b s')
  then have r: "bget pid d bn s = Some (Returned b s') \<or> bget pid d bn s = Some (Blocked b s')"
    by simp
  from run_invariants [OF bget_blocks.hyps(1)] have "wf s" by simp
  from bget_keeps_held_found [OF this bget_blocks.IH r] show ?case .
next
  case (resumes s i pid b s')
  note q = quiet_acquiresleep [OF Slot_valid [OF resumes.hyps(2)] resumes.hyps(3)]
  from q(1) resumes.IH show ?case
    by (rule quiet_held_found) (simp add: referenced_def q(2))
next
  case (loads s i)
  from quiet_bread_load [of s "Slot i"] have q: "quiet s (bread_load (Slot i) s)"
    and rc: "\<And>p. refcnt (deref (bread_load (Slot i) s) p) = refcnt (deref s p)"
    by simp_all
  from q loads.IH show ?case
    by (rule quiet_held_found) (simp add: referenced_def rc)
next
  case (payload s i bytes)
  have "quiet s (modify (Slot i) (\<lambda>x. x\<lparr>data := bytes\<rparr>) s)" by (rule quiet_modify) simp_all
  from this payload.IH show ?case
    by (rule quiet_held_found) (simp add: referenced_def deref_modify split: if_splits)
next
  case (bwrite s i pid u s')
  from quiet_bwrite [OF bwrite.hyps(3)] have q: "quiet s s'"
    and rc: "\<And>p. refcnt (deref s' p) = refcnt (deref s p)"
    by simp_all
  from q bwrite.IH show ?case
    by (rule quiet_held_found) (simp add: referenced_def rc)
next
  case (brelse s i pid ticks u s')
  note q = quiet_brelse [OF Slot_valid [OF brelse.hyps(2)] brelse.hyps(4)]
  from q(1) brelse.IH show ?case
  proof (rule quiet_held_found)
    fix p assume "p \<in> slots s" "referenced s' p"
    with brelse.hyps(3) q(2) [of p] show "referenced s p"
      by (cases "p = Slot i") (simp_all add: referenced_def)
  qed
next
  case (bpin s i)
  note q = quiet_bpin [OF Slot_valid [OF bpin.hyps(2)]]
  from q(1) bpin.IH show ?case
  proof (rule quiet_held_found)
    fix p assume "p \<in> slots s" "referenced (bpin (Slot i) s) p"
    with bpin.hyps(3) q(3) [of p] show "referenced s p"
      by (cases "p = Slot i") (simp_all add: referenced_def)
  qed
next
  case (bunpin s i)
  note q = quiet_bpin [OF Slot_valid [OF bunpin.hyps(2)]]
  from q(2) bunpin.IH show ?case
  proof (rule quiet_held_found)
    fix p assume "p \<in> slots s" "referenced (bunpin (Slot i) s) p"
    with bunpin.hyps(3) q(4) [of p] show "referenced s p"
      by (cases "p = Slot i") (simp_all add: referenced_def)
  qed
qed



lemma reachable_wf: "reachable s \<Longrightarrow> wf s"
  unfolding reachable_def using run_invariants by blast

lemma held_home:
  assumes "reachable_held s" and "p \<in> slots s" and "referenced s p"
  shows "p \<in> set (chain s (home s p))"
proof -
  from run_held_found assms have "lookup s (dev (deref s p)) (blockno (deref s p)) = Some p"
    by (auto simp: reachable_held_def held_found_def)
  from lookup_Some [OF this] show ?thesis by (simp add: home_def)
qed

lemma home_less [simp]: "home s p < NBUCKET"
  by (simp add: home_def)

subsection \<open>Identities, chains and handles along a run\<close>

lemma bget_boot30_1_5: "bget 1 1 5 boot30 = Some (Returned (Slot 26) held26)"
  unfolding held26_def using boot30_miss(2) by (rule returned_state_after)




lemma run_boot30: "run held boot30"
  unfolding boot30_def by (rule run.boot)

lemma run_held26: "run held held26"
  using run_boot30 bget_boot30_1_5 by (rule run.bget_returns)



lemma slots_length: "length (bufs s) = n \<Longrightarrow> i < n \<Longrightarrow> Slot i \<in> slots s"
  by simp











text \<open>
  C10. In every state of a run, the buffer that \<^verbatim>\<open>bget(dev, blockno)\<close> returns
  (or waits for) is, in the state the call leaves, a buffer of the pool in the chain of
  bucket \<open>hash dev blockno\<close>, which is the 32-bit sum of \<open>dev\<close> and
  \<open>blockno\<close> modulo 13, and this is the bucket its identity hashes to. Hence, for
  callers that pass buffers they hold a reference to, the bucket whose spin lock
  \<^verbatim>\<open>bpin\<close>, \<^verbatim>\<open>bunpin\<close> and \<^verbatim>\<open>brelse\<close> acquire and release
  (the one the buffer's current identity hashes to) is the bucket whose chain holds
  the buffer.
\<close>

theorem C10_handle_in_home_bucket:
  "(reachable s \<and>
    (bget pid d bn s = Some (Returned b s') \<or> bget pid d bn s = Some (Blocked b s')) \<longrightarrow>
      b \<in> slots s' \<and> b \<in> set (chain s' (hash d bn)) \<and>
      hash d bn = unat (d + bn) mod 13 \<and> home s' b = hash d bn) \<and>
   (reachable_held s \<and> c \<in> slots s \<and> referenced s c \<longrightarrow>
      c \<in> set (chain s (home s c)) \<and>
      trace (bpin c s) =
        trace s @ [Acquire (Bucket_lock (home s c)), Release (Bucket_lock (home s c))] \<and>
      trace (bunpin c s) =
        trace s @ [Acquire (Bucket_lock (home s c)), Release (Bucket_lock (home s c))] \<and>
      (holdingsleep pid c s \<longrightarrow>
         (\<exists>t. brelse pid ticks c s = Returned () t \<and>
              trace t = trace s @ [Releasesleep c, Acquire (Bucket_lock (home s c)),
                                   Release (Bucket_lock (home s c))])))"
proof (intro conjI impI)
  assume a: "reachable s \<and>
    (bget pid d bn s = Some (Returned b s') \<or> bget pid d bn s = Some (Blocked b s'))"
  note t = bget_returns_slot [OF reachable_wf [OF conjunct1 [OF a]] conjunct2 [OF a]]
  show "b \<in> slots s'" using t(1,6) by simp
  show "b \<in> set (chain s' (hash d bn))" by (rule t(2))
  show "hash d bn = unat (d + bn) mod 13" by (simp add: hash_def NBUCKET_def)
  show "home s' b = hash d bn" using t(3,4) by (simp add: home_def)
next
  assume a: "reachable_held s \<and> c \<in> slots s \<and> referenced s c"
  then have v: "valid_ptr s c" by (auto intro: slots_valid)
  show "c \<in> set (chain s (home s c))" using a held_home by blast
  show "trace (bpin c s) =
        trace s @ [Acquire (Bucket_lock (home s c)), Release (Bucket_lock (home s c))]"
    using pin_effect(13) [OF v] .
  show "trace (bunpin c s) =
        trace s @ [Acquire (Bucket_lock (home s c)), Release (Bucket_lock (home s c))]"
    using pin_effect(14) [OF v] .
  assume h: "holdingsleep pid c s"
  from brelse_effect [OF h v, of ticks]
  show "\<exists>t. brelse pid ticks c s = Returned () t \<and>
              trace t = trace s @ [Releasesleep c, Acquire (Bucket_lock (home s c)),
                                   Release (Bucket_lock (home s c))]"
    by blast
qed

theorem C10_handle_in_home_bucket_witness:
  "reachable boot30 \<and> bget 1 1 5 boot30 = Some (Returned (Slot 26) held26) \<and>
   Slot 26 \<in> set (chain held26 6) \<and> hash 1 5 = 6 \<and> home held26 (Slot 26) = 6 \<and>
   reachable_held held26 \<and> Slot 26 \<in> slots held26 \<and> referenced held26 (Slot 26) \<and>
   holdingsleep 1 (Slot 26) held26 \<and>
   trace (bpin (Slot 26) held26) = trace held26 @ [Acquire (Bucket_lock 6), Release (Bucket_lock 6)] \<and>
   (\<exists>t. brelse 1 9 (Slot 26) held26 = Returned () t \<and>
        trace t = trace held26 @ [Releasesleep (Slot 26), Acquire (Bucket_lock 6),
                                  Release (Bucket_lock 6)])"
proof -
  have r: "reachable boot30" "reachable_held held26"
    unfolding reachable_def reachable_held_def by (rule run_boot30, rule run_held26)
  have ref: "referenced held26 (Slot 26)" by (simp add: referenced_def held26_facts)
  from C10_handle_in_home_bucket [where s = boot30 and pid = 1 and d = 1 and bn = 5
      and b = "Slot 26" and s' = held26]
    r bget_boot30_1_5
  have a: "Slot 26 \<in> slots held26" "Slot 26 \<in> set (chain held26 (hash 1 5))"
    "home held26 (Slot 26) = hash 1 5"
    by blast+
  from C10_handle_in_home_bucket [where s = held26 and c = "Slot 26" and pid = 1 and ticks = 9]
    r a(1) ref held26_holding(1)
  have b: "trace (bpin (Slot 26) held26) =
        trace held26 @ [Acquire (Bucket_lock (home held26 (Slot 26))),
                        Release (Bucket_lock (home held26 (Slot 26)))]"
    "\<exists>t. brelse 1 9 (Slot 26) held26 = Returned () t \<and>
        trace t = trace held26 @ [Releasesleep (Slot 26),
           Acquire (Bucket_lock (home held26 (Slot 26))),
           Release (Bucket_lock (home held26 (Slot 26)))]"
    by blast+
  from r bget_boot30_1_5 a b ref held26_holding(1) show ?thesis
    by (simp add: boot30_miss(5) held26_facts(5))
qed

subsection \<open>bread\<close>

lemma bread_load_effect:
  assumes v: "valid_ptr s b"
  shows "if valid (deref s b) = 0
         then trace (bread_load b s) = trace s @ [Disk_rw b False] \<and>
              deref (bread_load b s) b =
                (deref s b)\<lparr>data := disk s (dev (deref s b), blockno (deref s b)), valid := 1\<rparr> \<and>
              disk (bread_load b s) = disk s \<and>
              (\<forall>p. p \<noteq> b \<longrightarrow> deref (bread_load b s) p = deref s p)
         else bread_load b s = s"
  using v by (simp add: bread_load_def virtio_disk_rw_def Let_def deref_modify)

lemma bread_cases:
  "bread pid d bn s =
     (case bget pid d bn s of
        None \<Rightarrow> None
      | Some (Panic m) \<Rightarrow> Some (Panic m)
      | Some (Blocked b s1) \<Rightarrow> Some (Blocked b s1)
      | Some (Returned b s1) \<Rightarrow> Some (Returned b (bread_load b s1)))"
  by (simp add: bread_def)

text \<open>
  C7. In a well-formed cache \<^verbatim>\<open>bread\<close> does what \<^verbatim>\<open>bget\<close> does and,
  when \<^verbatim>\<open>bget\<close> returns a buffer, returns that buffer with \<^verbatim>\<open>valid\<close>
  not zero. If \<^verbatim>\<open>bget\<close> returned it with \<^verbatim>\<open>valid == 0\<close> (as after
  every miss), the device read \<^verbatim>\<open>virtio_disk_rw(b, 0)\<close> is the one event added
  to the trace, the payload is the block's contents on the disk, and \<^verbatim>\<open>valid\<close>
  is 1; if the buffer was valid already, \<^verbatim>\<open>bread\<close> leaves the state of
  \<^verbatim>\<open>bget\<close> untouched: no device read, the payload as it was. A panic or a
  suspension of \<^verbatim>\<open>bget\<close> is one of \<^verbatim>\<open>bread\<close>.
\<close>

theorem C7_bread_valid_payload:
  assumes "wf s"
  shows "\<exists>r. bread pid d bn s = Some r \<and>
     (\<forall>b s2. r = Returned b s2 \<longrightarrow>
        valid (deref s2 b) \<noteq> 0 \<and>
        (\<exists>s1. bget pid d bn s = Some (Returned b s1) \<and>
           (lookup s d bn = None \<longrightarrow> valid (deref s1 b) = 0) \<and>
           (if valid (deref s1 b) = 0
            then trace s2 = trace s1 @ [Disk_rw b False] \<and> valid (deref s2 b) = 1 \<and>
                 data (deref s2 b) = disk s1 (dev (deref s1 b), blockno (deref s1 b)) \<and>
                 disk s2 = disk s1 \<and> (\<forall>p. p \<noteq> b \<longrightarrow> deref s2 p = deref s1 p)
            else s2 = s1))) \<and>
     (\<forall>b s1. bget pid d bn s = Some (Returned b s1) \<longrightarrow> (\<exists>s2. r = Returned b s2)) \<and>
     (\<forall>b s1. bget pid d bn s = Some (Blocked b s1) \<longrightarrow> r = Blocked b s1) \<and>
     (\<forall>m. bget pid d bn s = Some (Panic m) \<longrightarrow> r = Panic m)"
proof -
  from bget_total [OF assms, of pid d bn] obtain r0 where r0: "bget pid d bn s = Some r0" by blast
  show ?thesis
  proof (cases r0)
    case (Panic m)
    with r0 show ?thesis by (simp add: bread_cases)
  next
    case (Blocked b s1)
    with r0 show ?thesis by (simp add: bread_cases)
  next
    case (Returned b s1)
    with r0 have g: "bget pid d bn s = Some (Returned b s1)" by simp
    then have br: "bread pid d bn s = Some (Returned b (bread_load b s1))"
      by (simp add: bread_cases)
    note t = bget_returns_slot [OF assms disjI1 [OF g]]
    from t(1,6) have v: "valid_ptr s1 b" by (auto intro: slots_valid)
    note e = bread_load_effect [OF v]
    have miss: "valid (deref s1 b) = 0" if "lookup s d bn = None"
    proof -
      have "valid (body s1 b) = 0"
        unfolding bget_miss_cases(7) [OF assms that disjI1 [OF g]] by simp
      then show ?thesis by simp
    qed
    have val: "valid (deref (bread_load b s1) b) \<noteq> 0"
      using e by (cases "valid (deref s1 b) = 0") simp_all
    have eff: "if valid (deref s1 b) = 0
            then trace (bread_load b s1) = trace s1 @ [Disk_rw b False] \<and>
                 valid (deref (bread_load b s1) b) = 1 \<and>
                 data (deref (bread_load b s1) b) = disk s1 (dev (deref s1 b), blockno (deref s1 b)) \<and>
                 disk (bread_load b s1) = disk s1 \<and>
                 (\<forall>p. p \<noteq> b \<longrightarrow> deref (bread_load b s1) p = deref s1 p)
            else bread_load b s1 = s1"
      using e by (cases "valid (deref s1 b) = 0") simp_all
    show ?thesis
      unfolding br g using val eff miss by auto
  qed
qed

lemma wf_state_after_bread: "wf s \<Longrightarrow> wf (state_after s (bread pid d bn s))"
proof -
  assume w: "wf s"
  from bget_total [OF w, of pid d bn] obtain r where r: "bget pid d bn s = Some r" by blast
  from wf_state_after_bget [OF w, of pid d bn] have w': "wf (state_after s (Some r))"
    by (simp add: r)
  show ?thesis
  proof (cases r)
    case (Panic m)
    with r w show ?thesis by (simp add: bread_cases state_after_def)
  next
    case (Blocked b s')
    with r w' show ?thesis by (simp add: bread_cases state_after_def)
  next
    case (Returned b s')
    with w' have "wf s'" by (simp add: state_after_def)
    with quiet_facts(1) [of s' "bread_load b s'"] quiet_bread_load [of s' b]
    have "wf (bread_load b s')" by simp
    with r Returned show ?thesis by (simp add: bread_cases state_after_def)
  qed
qed

lemma wf_loaded26: "wf loaded26"
  unfolding loaded26_def using wf_boot30 by (rule wf_state_after_bread)

lemma loaded26_facts:
  "holdingsleep 1 (Slot 26) loaded26" "valid_ptr loaded26 (Slot 26)"
  by code_simp+

lemma wf_idle26: "wf idle26"
  unfolding idle26_def using wf_loaded26 loaded26_facts by (rule wf_brelse)

lemma idle26_facts:
  "returned (bread 2 1 5 idle26) = Some (Slot 26)"
  "valid (deref (state_after idle26 (bget 2 1 5 idle26)) (Slot 26)) = 1"
  "returned (bread 1 1 5 boot30) = Some (Slot 26)"
  "valid (deref held26 (Slot 26)) = 0"
  by code_simp+

lemma bread_boot30: "bread 1 1 5 boot30 = Some (Returned (Slot 26) loaded26)"
  unfolding loaded26_def using idle26_facts(3) by (rule returned_state_after)

lemma bread_idle26:
  "bread 2 1 5 idle26 = Some (Returned (Slot 26) (state_after idle26 (bread 2 1 5 idle26)))"
  using idle26_facts(1) by (rule returned_state_after)

lemma bget_held26_blocks: "\<exists>u. bget 2 1 5 held26 = Some (Blocked (Slot 26) u)"
proof -
  have l: "lookup held26 1 5 = Some (Slot 26)" by code_simp
  from bget_hit_effect [OF wf_held26 l, of 2] show ?thesis by (auto simp: held26_facts(4))
qed

lemma bget_full2_panics: "bget 1 1 3 full2 = Some (Panic ''bget: no buffers'')"
proof -
  have "lru full2 (scan_order full2) None = None" by code_simp
  with bget_miss_effect [OF wf_full2 full2_facts(1), of 1] show ?thesis by simp
qed

theorem C7_bread_valid_payload_witness:
  "wf boot30 \<and>
   (\<exists>s1 s2. bget 1 1 5 boot30 = Some (Returned (Slot 26) s1) \<and> valid (deref s1 (Slot 26)) = 0 \<and>
      bread 1 1 5 boot30 = Some (Returned (Slot 26) s2) \<and> valid (deref s2 (Slot 26)) = 1 \<and>
      trace s2 = trace s1 @ [Disk_rw (Slot 26) False]) \<and>
   wf idle26 \<and>
   (\<exists>s1. bget 2 1 5 idle26 = Some (Returned (Slot 26) s1) \<and> valid (deref s1 (Slot 26)) = 1 \<and>
      bread 2 1 5 idle26 = Some (Returned (Slot 26) s1)) \<and>
   wf held26 \<and>
   (\<exists>s1. bget 2 1 5 held26 = Some (Blocked (Slot 26) s1) \<and>
      bread 2 1 5 held26 = Some (Blocked (Slot 26) s1)) \<and>
   wf full2 \<and>
   bget 1 1 3 full2 = Some (Panic ''bget: no buffers'') \<and>
   bread 1 1 3 full2 = Some (Panic ''bget: no buffers'')"
proof -
  let ?t2 = "state_after idle26 (bread 2 1 5 idle26)"
  from bget_held26_blocks obtain u where u: "bget 2 1 5 held26 = Some (Blocked (Slot 26) u)" ..
  from C7_bread_valid_payload [OF wf_held26, of 2 1 5] obtain rb where
    "bread 2 1 5 held26 = Some rb"
    "\<forall>b s1. bget 2 1 5 held26 = Some (Blocked b s1) \<longrightarrow> rb = Blocked b s1"
    by (elim exE conjE)
  with u have blk: "\<exists>s1. bget 2 1 5 held26 = Some (Blocked (Slot 26) s1) \<and>
      bread 2 1 5 held26 = Some (Blocked (Slot 26) s1)"
    by auto
  from C7_bread_valid_payload [OF wf_full2, of 1 1 3] obtain rp where
    "bread 1 1 3 full2 = Some rp"
    "\<forall>m. bget 1 1 3 full2 = Some (Panic m) \<longrightarrow> rp = Panic m"
    by (elim exE conjE)
  with bget_full2_panics have pan: "bread 1 1 3 full2 = Some (Panic ''bget: no buffers'')"
    by simp
  from C7_bread_valid_payload [OF wf_boot30, of 1 1 5] obtain r where
    r: "bread 1 1 5 boot30 = Some r"
    and p: "\<forall>b s2. r = Returned b s2 \<longrightarrow>
        valid (deref s2 b) \<noteq> 0 \<and>
        (\<exists>s1. bget 1 1 5 boot30 = Some (Returned b s1) \<and>
           (lookup boot30 1 5 = None \<longrightarrow> valid (deref s1 b) = 0) \<and>
           (if valid (deref s1 b) = 0
            then trace s2 = trace s1 @ [Disk_rw b False] \<and> valid (deref s2 b) = 1 \<and>
                 data (deref s2 b) = disk s1 (dev (deref s1 b), blockno (deref s1 b)) \<and>
                 disk s2 = disk s1 \<and> (\<forall>p. p \<noteq> b \<longrightarrow> deref s2 p = deref s1 p)
            else s2 = s1))"
    by (elim exE conjE)
  from r bread_boot30 have "r = Returned (Slot 26) loaded26" by simp
  with p obtain s1 where a: "bget 1 1 5 boot30 = Some (Returned (Slot 26) s1)"
    "lookup boot30 1 5 = None \<longrightarrow> valid (deref s1 (Slot 26)) = 0"
    "if valid (deref s1 (Slot 26)) = 0
     then trace loaded26 = trace s1 @ [Disk_rw (Slot 26) False] \<and>
          valid (deref loaded26 (Slot 26)) = 1 \<and>
          data (deref loaded26 (Slot 26)) =
            disk s1 (dev (deref s1 (Slot 26)), blockno (deref s1 (Slot 26))) \<and>
          disk loaded26 = disk s1 \<and> (\<forall>p. p \<noteq> Slot 26 \<longrightarrow> deref loaded26 p = deref s1 p)
     else loaded26 = s1"
    by blast
  from a(2) boot30_miss(1) have z: "valid (deref s1 (Slot 26)) = 0" by simp
  with a(3) have b: "valid (deref loaded26 (Slot 26)) = 1"
    "trace loaded26 = trace s1 @ [Disk_rw (Slot 26) False]"
    by simp_all
  from C7_bread_valid_payload [OF wf_idle26, of 2 1 5] obtain r' where
    r': "bread 2 1 5 idle26 = Some r'"
    and p': "\<forall>b s2. r' = Returned b s2 \<longrightarrow>
        valid (deref s2 b) \<noteq> 0 \<and>
        (\<exists>s1. bget 2 1 5 idle26 = Some (Returned b s1) \<and>
           (lookup idle26 1 5 = None \<longrightarrow> valid (deref s1 b) = 0) \<and>
           (if valid (deref s1 b) = 0
            then trace s2 = trace s1 @ [Disk_rw b False] \<and> valid (deref s2 b) = 1 \<and>
                 data (deref s2 b) = disk s1 (dev (deref s1 b), blockno (deref s1 b)) \<and>
                 disk s2 = disk s1 \<and> (\<forall>p. p \<noteq> b \<longrightarrow> deref s2 p = deref s1 p)
            else s2 = s1))"
    by (elim exE conjE)
  from r' bread_idle26 have "r' = Returned (Slot 26) ?t2" by simp
  with p' obtain t1 where c: "bget 2 1 5 idle26 = Some (Returned (Slot 26) t1)"
    "if valid (deref t1 (Slot 26)) = 0
     then trace ?t2 = trace t1 @ [Disk_rw (Slot 26) False] \<and> valid (deref ?t2 (Slot 26)) = 1 \<and>
          data (deref ?t2 (Slot 26)) =
            disk t1 (dev (deref t1 (Slot 26)), blockno (deref t1 (Slot 26))) \<and>
          disk ?t2 = disk t1 \<and> (\<forall>p. p \<noteq> Slot 26 \<longrightarrow> deref ?t2 p = deref t1 p)
     else ?t2 = t1"
    by blast
  from c(1) have "state_after idle26 (bget 2 1 5 idle26) = t1" by (simp add: state_after_def)
  with idle26_facts(2) have d: "valid (deref t1 (Slot 26)) = 1" by simp
  with c(2) have "?t2 = t1" by simp
  with bread_idle26 have e: "bread 2 1 5 idle26 = Some (Returned (Slot 26) t1)" by simp
  from a(1) z bread_boot30 b have
    "\<exists>s1 s2. bget 1 1 5 boot30 = Some (Returned (Slot 26) s1) \<and> valid (deref s1 (Slot 26)) = 0 \<and>
      bread 1 1 5 boot30 = Some (Returned (Slot 26) s2) \<and> valid (deref s2 (Slot 26)) = 1 \<and>
      trace s2 = trace s1 @ [Disk_rw (Slot 26) False]"
    by blast
  moreover from c(1) d e have
    "\<exists>s1. bget 2 1 5 idle26 = Some (Returned (Slot 26) s1) \<and> valid (deref s1 (Slot 26)) = 1 \<and>
      bread 2 1 5 idle26 = Some (Returned (Slot 26) s1)"
    by blast
  ultimately show ?thesis
    using wf_boot30 wf_idle26 wf_held26 wf_full2 blk pan bget_full2_panics by blast
qed

end
